theory Spec2Isabelle
  imports Main "HOL-Library.Sublist"
begin

section \<open>JavaScript strings and values\<close>

text \<open>
  Strings are lists of code units. The model covers the code units below 256 (the
  ISO-8859-1 range), one \<^typ>\<open>char\<close> each; everything the program does with a string is
  done per code unit, so longer code units would only add members to the classes below.
\<close>

text \<open>The white space and line terminators of ECMAScript below 256: what \<open>\s\<close> matches
  and what \<open>trim\<close> strips.\<close>

definition isWhiteSpace :: "char \<Rightarrow> bool" where
  "isWhiteSpace c = (c \<in> set [CHR 0x09, CHR 0x0A, CHR 0x0B, CHR 0x0C, CHR 0x0D, CHR 0x20, CHR 0xA0])"

text \<open>\<open>\d\<close>: the ten ASCII digits.\<close>

definition isDigit :: "char \<Rightarrow> bool" where
  "isDigit c = (c \<in> set ''0123456789'')"

text \<open>\<open>String.prototype.toLowerCase\<close>: A-Z, and the upper-case letters U+00C0 to U+00DE
  (U+00D7 is the multiplication sign), move up by 32.\<close>

definition toLowerChar :: "char \<Rightarrow> char" where
  "toLowerChar c =
     (let n = (of_char c :: nat)
      in if (65 \<le> n \<and> n \<le> 90) \<or> (192 \<le> n \<and> n \<le> 222 \<and> n \<noteq> 215) then char_of (n + 32) else c)"

definition toLowerCase :: "string \<Rightarrow> string" where
  "toLowerCase s = map toLowerChar s"

definition trim :: "string \<Rightarrow> string" where
  "trim s = rev (dropWhile isWhiteSpace (rev (dropWhile isWhiteSpace s)))"

text \<open>\<open>s.includes(sub)\<close>: \<open>sub\<close> occurs in \<open>s\<close> as a contiguous run.\<close>

fun includes_str :: "string \<Rightarrow> string \<Rightarrow> bool" where
  "includes_str [] sub = (sub = [])"
| "includes_str (c # cs) sub = (prefix sub (c # cs) \<or> includes_str cs sub)"

text \<open>\<open>s.split(sep)\<close> for a one-character separator: always at least one piece.\<close>

fun splitOn :: "char \<Rightarrow> string \<Rightarrow> string list" where
  "splitOn sep [] = [[]]"
| "splitOn sep (c # cs) =
     (if c = sep then [] # splitOn sep cs
      else (case splitOn sep cs of [] \<Rightarrow> [[c]] | p # ps \<Rightarrow> (c # p) # ps))"

text \<open>
  A value read from an object literal is one of the literal's own strings or, when the
  key is not an own property, what the key names on \<open>Object.prototype\<close>: a built-in
  function or, for \<open>__proto__\<close>, the prototype object. \<open>Inherited k\<close> stands for the latter;
  it is not a string and it is truthy.
\<close>

datatype jsval = Str string | Inherited string

definition objectPrototypeKeys :: "string list" where
  "objectPrototypeKeys =
     [''constructor'', ''__defineGetter__'', ''__defineSetter__'', ''hasOwnProperty'',
      ''__lookupGetter__'', ''__lookupSetter__'', ''isPrototypeOf'', ''propertyIsEnumerable'',
      ''toString'', ''valueOf'', ''__proto__'', ''toLocaleString'']"

text \<open>\<open>obj[key]\<close> on an object literal with string values; \<open>None\<close> is \<open>undefined\<close>.\<close>

definition getProp :: "(string \<times> string) list \<Rightarrow> string \<Rightarrow> jsval option" where
  "getProp obj key =
     (case map_of obj key of
        Some v \<Rightarrow> Some (Str v)
      | None \<Rightarrow> if key \<in> set objectPrototypeKeys then Some (Inherited key) else None)"

text \<open>\<open>v || d\<close> for a looked-up value \<open>v\<close>: \<open>undefined\<close> and the empty string are falsy.\<close>

definition orElse :: "jsval option \<Rightarrow> jsval \<Rightarrow> jsval" where
  "orElse v d = (case v of None \<Rightarrow> d | Some (Str s) \<Rightarrow> if s = [] then d else Str s | Some (Inherited k) \<Rightarrow> Inherited k)"

text \<open>The string a template literal \<open>`${v}`\<close> inserts for a value.\<close>

definition toString :: "jsval \<Rightarrow> string" where
  "toString v =
     (case v of
        Str s \<Rightarrow> s
      | Inherited k \<Rightarrow>
          if k = ''__proto__'' then ''[object Object]''
          else if k = ''constructor'' then ''function Object() { [native code] }''
          else ''function '' @ k @ ''() { [native code] }'')"

datatype exn = TypeError | Error string

section \<open>Regular expressions\<close>

text \<open>
  The patterns of the program use literals, character classes, sequence, alternation, the
  greedy quantifiers \<open>*\<close>, \<open>+\<close>, \<open>?\<close> and capture groups, all under the flag \<open>i\<close>. The
  matcher is the backtracking matcher of the ECMAScript specification: a matcher takes a
  continuation and a state (the input still to read, and the captures so far) and yields
  the final state of the first successful path, or \<open>None\<close>.
\<close>

datatype atom = Ch char | Space | Digit

datatype regex =
    Eps
  | Lit char
  | OneOf "atom list"
  | NoneOf "atom list"
  | Seq regex regex
  | Alt regex regex
  | Star regex
  | Group nat regex

type_synonym captures = "nat \<rightharpoonup> string"
type_synonym mstate = "string \<times> captures"
type_synonym cont = "mstate \<Rightarrow> mstate option"

text \<open>
  Canonicalize under \<open>i\<close> (no \<open>u\<close> flag): a-z compare as A-Z. A code unit from 128 on never
  canonicalizes to an ASCII one, and every character written in the patterns is ASCII, so
  the other code units compare as themselves.
\<close>

definition canonicalize :: "char \<Rightarrow> char" where
  "canonicalize c = (let n = (of_char c :: nat) in if 97 \<le> n \<and> n \<le> 122 then char_of (n - 32) else c)"

fun atomMatches :: "atom \<Rightarrow> char \<Rightarrow> bool" where
  "atomMatches (Ch a) c = (canonicalize c = canonicalize a)"
| "atomMatches Space c = isWhiteSpace c"
| "atomMatches Digit c = isDigit c"

definition classMatches :: "atom list \<Rightarrow> char \<Rightarrow> bool" where
  "classMatches as c = list_ex (\<lambda>a. atomMatches a c) as"

definition charMatcher :: "(char \<Rightarrow> bool) \<Rightarrow> cont \<Rightarrow> mstate \<Rightarrow> mstate option" where
  "charMatcher p k st =
     (case fst st of [] \<Rightarrow> None | c # cs \<Rightarrow> if p c then k (cs, snd st) else None)"

text \<open>RepeatMatcher for \<open>*\<close>: one more iteration first (an iteration that reads nothing is
  rejected), the continuation otherwise.\<close>

function repeatMatcher :: "(cont \<Rightarrow> mstate \<Rightarrow> mstate option) \<Rightarrow> cont \<Rightarrow> mstate \<Rightarrow> mstate option" where
  "repeatMatcher m k st =
     (case m (\<lambda>st'. if length (fst st') < length (fst st) then repeatMatcher m k st' else None) st of
        Some r \<Rightarrow> Some r
      | None \<Rightarrow> k st)"
  by pat_completeness auto
termination
  by (relation "measure (\<lambda>(m, k, st). length (fst st))") auto

declare repeatMatcher.simps [simp del]

primrec matcher :: "regex \<Rightarrow> cont \<Rightarrow> mstate \<Rightarrow> mstate option" where
  "matcher Eps k st = k st"
| "matcher (Lit a) k st = charMatcher (\<lambda>c. canonicalize c = canonicalize a) k st"
| "matcher (OneOf as) k st = charMatcher (\<lambda>c. classMatches as c) k st"
| "matcher (NoneOf as) k st = charMatcher (\<lambda>c. \<not> classMatches as c) k st"
| "matcher (Seq a b) k st = matcher a (matcher b k) st"
| "matcher (Alt a b) k st = (case matcher a k st of Some r \<Rightarrow> Some r | None \<Rightarrow> matcher b k st)"
| "matcher (Star a) k st = repeatMatcher (matcher a) k st"
| "matcher (Group i a) k st =
     matcher a (\<lambda>st'. k (fst st', (snd st')(i \<mapsto> take (length (fst st) - length (fst st')) (fst st)))) st"

text \<open>
  \<open>RegExp.prototype.exec\<close> on the input from \<open>lastIndex\<close> on (and \<open>String.prototype.match\<close>
  with a pattern without \<open>g\<close>, on the whole string): the leftmost position where the pattern
  matches. The result is the input after the match (where \<open>lastIndex\<close> then points) and the
  captures. The patterns have no anchor, boundary, look-behind or back-reference, so a
  match depends on the input from its start position on only.
\<close>

fun regExpExec :: "regex \<Rightarrow> string \<Rightarrow> mstate option" where
  "regExpExec r [] = matcher r Some ([], Map.empty)"
| "regExpExec r (c # cs) =
     (case matcher r Some (c # cs, Map.empty) of Some st \<Rightarrow> Some st | None \<Rightarrow> regExpExec r cs)"

text \<open>\<open>match[i]\<close>, to be used as a string: \<open>undefined\<close> when the group took no part.\<close>

definition capture :: "mstate \<Rightarrow> nat \<Rightarrow> exn + string" where
  "capture m i = (case snd m i of None \<Rightarrow> Inl TypeError | Some s \<Rightarrow> Inr s)"

fun seqs :: "regex list \<Rightarrow> regex" where
  "seqs [] = Eps"
| "seqs (r # rs) = Seq r (seqs rs)"

fun alts :: "regex list \<Rightarrow> regex" where
  "alts [] = Eps"
| "alts [r] = r"
| "alts (r # rs) = Alt r (alts rs)"

definition lit :: "string \<Rightarrow> regex" where
  "lit s = seqs (map Lit s)"

definition Opt :: "regex \<Rightarrow> regex" where
  "Opt r = Alt r Eps"

definition Plus :: "regex \<Rightarrow> regex" where
  "Plus r = Seq r (Star r)"

definition quote :: "atom list" where
  "quote = [Ch (CHR 0x27), Ch (CHR 0x22)]"

subsection \<open>The patterns of fontExtractor.ts\<close>

text \<open>\<^verbatim>\<open>/@font-face\s*\{([^}]*(?:\{[^}]*\}[^}]*)*)\}/gi\<close>\<close>

definition fontFaceRegex :: regex where
  "fontFaceRegex =
     seqs [lit ''@font-face'', Star (OneOf [Space]), Lit CHR ''{'',
           Group 1 (seqs [Star (NoneOf [Ch CHR ''}'']),
                          Star (seqs [Lit CHR ''{'', Star (NoneOf [Ch CHR ''}'']), Lit CHR ''}'',
                                      Star (NoneOf [Ch CHR ''}''])])]),
           Lit CHR ''}'']"

text \<open>\<^verbatim>\<open>/font-family\s*:\s*['"]?([^'";,]+)['"]?/i\<close>\<close>

definition familyRegex :: regex where
  "familyRegex =
     seqs [lit ''font-family'', Star (OneOf [Space]), Lit CHR '':'', Star (OneOf [Space]),
           Opt (OneOf quote),
           Group 1 (Plus (NoneOf (quote @ [Ch CHR '';'', Ch CHR '','']))),
           Opt (OneOf quote)]"

text \<open>\<^verbatim>\<open>/font-weight\s*:\s*(\d+|normal|bold|lighter|bolder)/i\<close>\<close>

definition weightRegex :: regex where
  "weightRegex =
     seqs [lit ''font-weight'', Star (OneOf [Space]), Lit CHR '':'', Star (OneOf [Space]),
           Group 1 (alts [Plus (OneOf [Digit]), lit ''normal'', lit ''bold'', lit ''lighter'',
                          lit ''bolder''])]"

text \<open>\<^verbatim>\<open>/font-style\s*:\s*(normal|italic|oblique)/i\<close>\<close>

definition styleRegex :: regex where
  "styleRegex =
     seqs [lit ''font-style'', Star (OneOf [Space]), Lit CHR '':'', Star (OneOf [Space]),
           Group 1 (alts [lit ''normal'', lit ''italic'', lit ''oblique''])]"

text \<open>\<^verbatim>\<open>/src\s*:\s*([^;]+)/is\<close>\<close>

definition srcRegex :: regex where
  "srcRegex =
     seqs [lit ''src'', Star (OneOf [Space]), Lit CHR '':'', Star (OneOf [Space]),
           Group 1 (Plus (NoneOf [Ch CHR '';'']))]"

text \<open>\<^verbatim>\<open>/url\(['"]?([^'")\s]+)['"]?\)\s*format\(['"]?([^'"()]+)['"]?\)/gi\<close>\<close>

definition urlRegex :: regex where
  "urlRegex =
     seqs [lit ''url('', Opt (OneOf quote),
           Group 1 (Plus (NoneOf (quote @ [Ch CHR '')'', Space]))),
           Opt (OneOf quote), Lit CHR '')'', Star (OneOf [Space]),
           lit ''format('', Opt (OneOf quote),
           Group 2 (Plus (NoneOf (quote @ [Ch CHR ''('', Ch CHR '')'']))),
           Opt (OneOf quote), Lit CHR '')'']"

text \<open>\<^verbatim>\<open>/url\(['"]?([^'")\s]+)['"]?\)/gi\<close>\<close>

definition simpleUrlRegex :: regex where
  "simpleUrlRegex =
     seqs [lit ''url('', Opt (OneOf quote),
           Group 1 (Plus (NoneOf (quote @ [Ch CHR '')'', Space]))),
           Opt (OneOf quote), Lit CHR '')'']"

section \<open>Font descriptors\<close>

text \<open>The interface \<open>FontInfo\<close> of types/index.ts. Its optional \<open>previewUrl\<close> is written by
  none of the functions below and is left out. \<open>weight\<close> and \<open>format\<close> hold what the
  look-ups of \<open>normalizeWeight\<close> and \<open>getFormatFromUrl\<close> return.\<close>

record FontInfo =
  family :: string
  style :: string
  weight :: jsval
  source :: string
  url :: "string option"
  format :: "jsval option"

text \<open>
  The URL class of the platform, taken as a parameter: \<open>href P u b\<close> is
  \<open>new URL(u, b).href\<close>, \<open>hostname P b\<close> is \<open>new URL(b).hostname\<close> and
  \<open>searchParamsGet P u n\<close> is \<open>new URL(u).searchParams.get(n)\<close>; the outer \<open>None\<close> is the
  TypeError of the constructor, the inner one is \<open>null\<close>.
\<close>

record platform =
  href :: "string \<Rightarrow> string \<Rightarrow> string option"
  hostname :: "string \<Rightarrow> string option"
  searchParamsGet :: "string \<Rightarrow> string \<Rightarrow> string option option"

text \<open>\<open>xs[i]\<close> and \<open>xs.pop()\<close> on an array: \<open>None\<close> is \<open>undefined\<close>.\<close>

definition at :: "'a list \<Rightarrow> nat \<Rightarrow> 'a option" where
  "at xs i = (if i < length xs then Some (xs ! i) else None)"

definition pop :: "'a list \<Rightarrow> 'a option" where
  "pop xs = (case rev xs of [] \<Rightarrow> None | x # _ \<Rightarrow> Some x)"

section \<open>fontExtractor.ts\<close>

definition weightMap :: "(string \<times> string) list" where
  "weightMap = [(''normal'', ''400''), (''bold'', ''700''), (''lighter'', ''300''), (''bolder'', ''700'')]"

definition normalizeWeight :: "string \<Rightarrow> jsval" where
  "normalizeWeight wt = orElse (getProp weightMap (toLowerCase wt)) (Str wt)"

definition formatMap :: "(string \<times> string) list" where
  "formatMap = [(''woff2'', ''woff2''), (''woff'', ''woff''), (''ttf'', ''truetype''),
                (''otf'', ''opentype''), (''eot'', ''embedded-opentype'')]"

definition getFormatFromUrl :: "string \<Rightarrow> jsval" where
  "getFormatFromUrl u =
     (let extension = Option.bind (pop (splitOn CHR ''.'' u))
                        (\<lambda>e. at (splitOn CHR ''?'' (toLowerCase e)) 0)
      in orElse (getProp formatMap (case extension of None \<Rightarrow> [] | Some e \<Rightarrow> e)) (Str ''unknown''))"

subsection \<open>parseFontFaces\<close>

text \<open>The three field extractions of a block. Reading a group that took no part in the
  match gives \<open>undefined\<close>; the model stops with a TypeError there.\<close>

definition blockFamily :: "string \<Rightarrow> exn + string" where
  "blockFamily block =
     (case regExpExec familyRegex block of
        None \<Rightarrow> Inr ''Unknown''
      | Some familyMatch \<Rightarrow>
          (case capture familyMatch 1 of Inl e \<Rightarrow> Inl e | Inr s \<Rightarrow> Inr (trim s)))"

definition blockWeight :: "string \<Rightarrow> exn + string" where
  "blockWeight block =
     (case regExpExec weightRegex block of
        None \<Rightarrow> Inr ''400''
      | Some weightMatch \<Rightarrow> capture weightMatch 1)"

definition blockStyle :: "string \<Rightarrow> exn + string" where
  "blockStyle block =
     (case regExpExec styleRegex block of
        None \<Rightarrow> Inr ''normal''
      | Some styleMatch \<Rightarrow> capture styleMatch 1)"

text \<open>The body of the \<open>try\<close> block: both URL constructors may throw before the push.\<close>

definition pushFont ::
  "platform \<Rightarrow> string \<Rightarrow> string \<Rightarrow> string \<Rightarrow> string \<Rightarrow> string \<Rightarrow> jsval \<Rightarrow> FontInfo list
     \<Rightarrow> exn + FontInfo list" where
  "pushFont P baseUrl fam wt sty fontUrl fmt fonts =
     (case href P fontUrl baseUrl of
        None \<Rightarrow> Inl TypeError
      | Some fullUrl \<Rightarrow>
          (case hostname P baseUrl of
             None \<Rightarrow> Inl TypeError
           | Some host \<Rightarrow>
               Inr (fonts @ [\<lparr>family = fam, style = sty, weight = normalizeWeight wt,
                              source = host, url = Some fullUrl, format = Some fmt\<rparr>])))"

text \<open>\<open>try { ... } catch (err) { console.warn(...) }\<close>: the list stays as it was.\<close>

definition tryPushFont ::
  "platform \<Rightarrow> string \<Rightarrow> string \<Rightarrow> string \<Rightarrow> string \<Rightarrow> string \<Rightarrow> jsval \<Rightarrow> FontInfo list
     \<Rightarrow> FontInfo list" where
  "tryPushFont P baseUrl fam wt sty fontUrl fmt fonts =
     (case pushFont P baseUrl fam wt sty fontUrl fmt fonts of Inl err \<Rightarrow> fonts | Inr fonts' \<Rightarrow> fonts')"

text \<open>
  The three \<open>while ((match = regex.exec(text)) !== null)\<close> loops. The state of a loop is
  the input from \<open>lastIndex\<close> on and the list \<open>fonts\<close>; \<open>None\<close> is a loop that does not end.
\<close>

partial_function (option) urlFormatLoop ::
  "platform \<Rightarrow> string \<Rightarrow> string \<Rightarrow> string \<Rightarrow> string \<Rightarrow> string \<Rightarrow> FontInfo list
     \<Rightarrow> (exn + FontInfo list) option" where
  "urlFormatLoop P baseUrl fam wt sty srcValue fonts =
     (case regExpExec urlRegex srcValue of
        None \<Rightarrow> Some (Inr fonts)
      | Some urlMatch \<Rightarrow>
          (case capture urlMatch 1 of
             Inl e \<Rightarrow> Some (Inl e)
           | Inr fontUrl \<Rightarrow>
               (case capture urlMatch 2 of
                  Inl e \<Rightarrow> Some (Inl e)
                | Inr fmt \<Rightarrow>
                    urlFormatLoop P baseUrl fam wt sty (fst urlMatch)
                      (tryPushFont P baseUrl fam wt sty fontUrl (Str (toLowerCase fmt)) fonts))))"

declare urlFormatLoop.simps [code]

text \<open>\<open>fonts.some(f => f.url?.includes(fontUrl))\<close>\<close>

definition alreadyMatched :: "FontInfo list \<Rightarrow> string \<Rightarrow> bool" where
  "alreadyMatched fonts fontUrl =
     list_ex (\<lambda>f. case url f of None \<Rightarrow> False | Some u \<Rightarrow> includes_str u fontUrl) fonts"

partial_function (option) simpleUrlLoop ::
  "platform \<Rightarrow> string \<Rightarrow> string \<Rightarrow> string \<Rightarrow> string \<Rightarrow> string \<Rightarrow> FontInfo list
     \<Rightarrow> (exn + FontInfo list) option" where
  "simpleUrlLoop P baseUrl fam wt sty srcValue fonts =
     (case regExpExec simpleUrlRegex srcValue of
        None \<Rightarrow> Some (Inr fonts)
      | Some simpleMatch \<Rightarrow>
          (case capture simpleMatch 1 of
             Inl e \<Rightarrow> Some (Inl e)
           | Inr fontUrl \<Rightarrow>
               if alreadyMatched fonts fontUrl
               then simpleUrlLoop P baseUrl fam wt sty (fst simpleMatch) fonts
               else simpleUrlLoop P baseUrl fam wt sty (fst simpleMatch)
                      (tryPushFont P baseUrl fam wt sty fontUrl (getFormatFromUrl fontUrl) fonts)))"

declare simpleUrlLoop.simps [code]

text \<open>The body of the outer loop, for one block.\<close>

definition parseBlock ::
  "platform \<Rightarrow> string \<Rightarrow> string \<Rightarrow> FontInfo list \<Rightarrow> (exn + FontInfo list) option" where
  "parseBlock P baseUrl block fonts =
     (case blockFamily block of Inl e \<Rightarrow> Some (Inl e) | Inr fam \<Rightarrow>
      case blockWeight block of Inl e \<Rightarrow> Some (Inl e) | Inr wt \<Rightarrow>
      case blockStyle block of Inl e \<Rightarrow> Some (Inl e) | Inr sty \<Rightarrow>
      case regExpExec srcRegex block of None \<Rightarrow> Some (Inr fonts) | Some srcMatch \<Rightarrow>
      case capture srcMatch 1 of Inl e \<Rightarrow> Some (Inl e) | Inr srcValue \<Rightarrow>
      case urlFormatLoop P baseUrl fam wt sty srcValue fonts of
        None \<Rightarrow> None
      | Some (Inl e) \<Rightarrow> Some (Inl e)
      | Some (Inr fonts') \<Rightarrow> simpleUrlLoop P baseUrl fam wt sty srcValue fonts')"

partial_function (option) fontFaceLoop ::
  "platform \<Rightarrow> string \<Rightarrow> string \<Rightarrow> FontInfo list \<Rightarrow> (exn + FontInfo list) option" where
  "fontFaceLoop P baseUrl cssText fonts =
     (case regExpExec fontFaceRegex cssText of
        None \<Rightarrow> Some (Inr fonts)
      | Some m \<Rightarrow>
          (case capture m 1 of
             Inl e \<Rightarrow> Some (Inl e)
           | Inr block \<Rightarrow>
               (case parseBlock P baseUrl block fonts of
                  None \<Rightarrow> None
                | Some (Inl e) \<Rightarrow> Some (Inl e)
                | Some (Inr fonts') \<Rightarrow> fontFaceLoop P baseUrl (fst m) fonts')))"

declare fontFaceLoop.simps [code]

definition parseFontFaces :: "platform \<Rightarrow> string \<Rightarrow> string \<Rightarrow> (exn + FontInfo list) option" where
  "parseFontFaces P cssText baseUrl = fontFaceLoop P baseUrl cssText []"

subsection \<open>parseGoogleFontsUrl\<close>

text \<open>The inner \<open>forEach\<close> callback: the descriptor pushed for one weight token.\<close>

definition weightFont :: "string \<Rightarrow> string \<Rightarrow> FontInfo" where
  "weightFont fontName w =
     (let isItalic = includes_str w ''i'' \<or> includes_str w ''italic'';
          digits = filter isDigit w
      in \<lparr>family = fontName, style = (if isItalic then ''italic'' else ''normal''),
          weight = Str (if digits = [] then ''400'' else digits),
          source = ''Google Fonts'', url = None, format = None\<rparr>)"

text \<open>The outer \<open>forEach\<close> callback: the descriptors pushed for one family segment.\<close>

definition familyFonts :: "string \<Rightarrow> exn + FontInfo list" where
  "familyFonts seg =
     (let parts = splitOn CHR '':'' seg
      in case at parts 0 of
           None \<Rightarrow> Inl TypeError
         | Some name \<Rightarrow>
             (let fontName = map (\<lambda>c. if c = CHR ''+'' then CHR '' '' else c) name;
                  plain = \<lparr>family = fontName, style = ''normal'', weight = Str ''400'',
                           source = ''Google Fonts'', url = None, format = None\<rparr>
              in case at parts 1 of
                   None \<Rightarrow> Inr [plain]
                 | Some weights \<Rightarrow>
                     if weights = [] then Inr [plain]
                     else Inr (map (weightFont fontName) (splitOn CHR '','' weights))))"

text \<open>\<open>families.forEach\<close> inside the \<open>try\<close>: an exception ends the iteration, and the
  function returns what was pushed before.\<close>

fun familiesLoop :: "string list \<Rightarrow> FontInfo list \<Rightarrow> FontInfo list" where
  "familiesLoop [] fonts = fonts"
| "familiesLoop (seg # segs) fonts =
     (case familyFonts seg of Inl e \<Rightarrow> fonts | Inr new \<Rightarrow> familiesLoop segs (fonts @ new))"

definition parseGoogleFontsUrl :: "platform \<Rightarrow> string \<Rightarrow> FontInfo list" where
  "parseGoogleFontsUrl P u =
     (case searchParamsGet P u ''family'' of
        None \<Rightarrow> []
      | Some None \<Rightarrow> []
      | Some (Some familyParam) \<Rightarrow>
          if familyParam = [] then [] else familiesLoop (splitOn CHR ''|'' familyParam) [])"

subsection \<open>The deduplication at the end of extractFontsFromCSS\<close>

definition fontKey :: "FontInfo \<Rightarrow> string" where
  "fontKey font = family font @ ''-'' @ toString (weight font) @ ''-'' @ style font"

text \<open>The reducer over a \<open>Map\<close>, which keeps its keys in insertion order.\<close>

definition reducer :: "(string \<times> FontInfo) list \<Rightarrow> FontInfo \<Rightarrow> (string \<times> FontInfo) list" where
  "reducer acc font =
     (if map_of acc (fontKey font) = None then acc @ [(fontKey font, font)] else acc)"

definition uniqueFonts :: "FontInfo list \<Rightarrow> (string \<times> FontInfo) list" where
  "uniqueFonts fonts = foldl reducer [] fonts"

definition deduplicate :: "FontInfo list \<Rightarrow> FontInfo list" where
  "deduplicate fonts = map snd (uniqueFonts fonts)"

section \<open>App.tsx: fetchWithProxy\<close>

definition CORS_PROXIES :: "string list" where
  "CORS_PROXIES = [''https://corsproxy.io/?'', ''https://api.allorigins.win/raw?url='']"

text \<open>\<open>encodeURIComponent\<close>: the unreserved characters stay, every other code unit becomes
  the percent-encoded bytes of its UTF-8 form (one byte below 128, two below 256).\<close>

definition isUnreserved :: "char \<Rightarrow> bool" where
  "isUnreserved c =
     (let n = (of_char c :: nat)
      in (65 \<le> n \<and> n \<le> 90) \<or> (97 \<le> n \<and> n \<le> 122) \<or> (48 \<le> n \<and> n \<le> 57)
         \<or> c \<in> set (''-_.!~*()'' @ [CHR 0x27]))"

definition percentByte :: "nat \<Rightarrow> string" where
  "percentByte b = [CHR ''%'', ''0123456789ABCDEF'' ! (b div 16), ''0123456789ABCDEF'' ! (b mod 16)]"

definition encodeChar :: "char \<Rightarrow> string" where
  "encodeChar c =
     (let n = (of_char c :: nat)
      in if isUnreserved c then [c]
         else if n < 128 then percentByte n
         else percentByte (192 + n div 64) @ percentByte (128 + n mod 64))"

definition encodeURIComponent :: "string \<Rightarrow> string" where
  "encodeURIComponent s = concat (map encodeChar s)"

record response =
  status :: nat
  body :: string

definition ok :: "response \<Rightarrow> bool" where
  "ok r = (200 \<le> status r \<and> status r \<le> 299)"

text \<open>What \<open>await fetch(request)\<close> does: it throws (a network error) or gives a response.
  The network is a function of the request; within one call of \<open>fetchWithProxy\<close> the
  requests differ, so any course of the relays is such a function.\<close>

datatype fetched = Rejected | Resolved response

fun tryProxies :: "(string \<Rightarrow> fetched) \<Rightarrow> string list \<Rightarrow> string \<Rightarrow> exn + response" where
  "tryProxies fetch [] targetUrl = Inl (Error ''All proxies failed'')"
| "tryProxies fetch (proxy # proxies) targetUrl =
     (case fetch (proxy @ encodeURIComponent targetUrl) of
        Rejected \<Rightarrow> tryProxies fetch proxies targetUrl
      | Resolved r \<Rightarrow> if ok r then Inr r else tryProxies fetch proxies targetUrl)"

definition fetchWithProxy :: "(string \<Rightarrow> fetched) \<Rightarrow> string \<Rightarrow> exn + response" where
  "fetchWithProxy fetch targetUrl = tryProxies fetch CORS_PROXIES targetUrl"

section \<open>Reference definitions and sample inputs\<close>

text \<open>First wins, by recursion: the head stays, and every later descriptor with the
  head's key goes.\<close>

fun firstWins :: "FontInfo list \<Rightarrow> FontInfo list" where
  "firstWins [] = []"
| "firstWins (f # fs) = f # firstWins (filter (\<lambda>g. fontKey g \<noteq> fontKey f) fs)"

text \<open>The keys of the accumulator are the keys of its values.\<close>

definition keyed :: "(string \<times> FontInfo) list \<Rightarrow> bool" where
  "keyed acc = list_all (\<lambda>(k, v). k = fontKey v) acc"


text \<open>A relay's answer is accepted when it is a response with a 2xx status.\<close>

definition accepted :: "fetched \<Rightarrow> bool" where
  "accepted x = (case x of Rejected \<Rightarrow> False | Resolved r \<Rightarrow> ok r)"

text \<open>
  A few values of the platform for the inputs used below:
  \<open>new URL(u, "https://ex.com/css/a.css").href\<close> for three values of \<open>u\<close>, the host name
  of that base, and the \<open>family\<close> parameter of one Google Fonts link; two courses of the
  relays.
\<close>

definition sampleHref :: "string \<Rightarrow> string \<Rightarrow> string option" where
  "sampleHref u b =
     (if b = ''https://ex.com/css/a.css''
      then map_of [(''a.woff2'', ''https://ex.com/css/a.woff2''),
                   (''../fonts/x.ttf'', ''https://ex.com/fonts/x.ttf''),
                   (''https://ex.com/a.woff2'', ''https://ex.com/a.woff2'')] u
      else None)"

definition sampleParam :: "string \<Rightarrow> string \<Rightarrow> string option option" where
  "sampleParam u n =
     (if u = ''https://fonts.googleapis.com/css?family=Roboto:400,700i''
      then (if n = ''family'' then Some (Some ''Roboto:400,700i'') else Some None)
      else None)"

definition samplePlatform :: platform where
  "samplePlatform =
     \<lparr>href = sampleHref,
      hostname = (\<lambda>b. if b = ''https://ex.com/css/a.css'' then Some ''ex.com'' else None),
      searchParamsGet = sampleParam\<rparr>"

definition allRelaysDown :: "string \<Rightarrow> fetched" where
  "allRelaysDown request = Rejected"

definition secondRelayUp :: "string \<Rightarrow> fetched" where
  "secondRelayUp request =
     (if request = ''https://corsproxy.io/?https%3A%2F%2Fex.com%2F''
      then Resolved \<lparr>status = 403, body = ''Forbidden''\<rparr>
      else if request = ''https://api.allorigins.win/raw?url=https%3A%2F%2Fex.com%2F''
      then Resolved \<lparr>status = 200, body = ''<html></html>''\<rparr>
      else Rejected)"


text \<open>A block with one level of nested braces in its body.\<close>

definition nestedCss :: string where
  "nestedCss = ''@font-face { font-family: \"Acme\"; @supports (x) { y: z } src: url(a.woff2) format(\"woff2\"); }''"





text \<open>
  The identity of a descriptor is its family, weight and style. First wins on the
  identity, by recursion: the head stays, and every later descriptor with the head's
  family, weight and style goes.
\<close>

definition triple :: "FontInfo \<Rightarrow> string \<times> jsval \<times> string" where
  "triple f = (family f, weight f, style f)"

fun firstSeen :: "FontInfo list \<Rightarrow> FontInfo list" where
  "firstSeen [] = []"
| "firstSeen (f # fs) = f # firstSeen (filter (\<lambda>g. triple g \<noteq> triple f) fs)"




section \<open>Definitions for the proofs\<close>

text \<open>
  The states a pattern can reach from a state, over every path of the matcher, first
  or not: what the matcher returns is the continuation's answer at one of them.
\<close>

primrec reach :: "regex \<Rightarrow> mstate \<Rightarrow> mstate set" where
  "reach Eps st = {st}"
| "reach (Lit a) st = {(cs, snd st) | c cs. fst st = c # cs \<and> canonicalize c = canonicalize a}"
| "reach (OneOf as) st = {(cs, snd st) | c cs. fst st = c # cs \<and> classMatches as c}"
| "reach (NoneOf as) st = {(cs, snd st) | c cs. fst st = c # cs \<and> \<not> classMatches as c}"
| "reach (Seq a b) st = (\<Union>st' \<in> reach a st. reach b st')"
| "reach (Alt a b) st = reach a st \<union> reach b st"
| "reach (Star a) st = {st'. (st, st') \<in> {(x, y). y \<in> reach a x}\<^sup>*}"
| "reach (Group i a) st =
     {(fst st', (snd st')(i \<mapsto> take (length (fst st) - length (fst st')) (fst st))) | st'.
        st' \<in> reach a st}"

text \<open>A pattern that reads at least one character on every path.\<close>

primrec nonEmpty :: "regex \<Rightarrow> bool" where
  "nonEmpty Eps = False"
| "nonEmpty (Lit a) = True"
| "nonEmpty (OneOf as) = True"
| "nonEmpty (NoneOf as) = True"
| "nonEmpty (Seq a b) = (nonEmpty a \<or> nonEmpty b)"
| "nonEmpty (Alt a b) = (nonEmpty a \<and> nonEmpty b)"
| "nonEmpty (Star a) = False"
| "nonEmpty (Group i a) = nonEmpty a"

text \<open>A group that takes part in every match of the pattern.\<close>

primrec participates :: "nat \<Rightarrow> regex \<Rightarrow> bool" where
  "participates i Eps = False"
| "participates i (Lit a) = False"
| "participates i (OneOf as) = False"
| "participates i (NoneOf as) = False"
| "participates i (Seq a b) = (participates i a \<or> participates i b)"
| "participates i (Alt a b) = (participates i a \<and> participates i b)"
| "participates i (Star a) = False"
| "participates i (Group j a) = (i = j \<or> participates i a)"

text \<open>The words a pattern can read, and the words group \<open>i\<close> can capture.\<close>

primrec lang :: "regex \<Rightarrow> string set" where
  "lang Eps = {[]}"
| "lang (Lit a) = {[c] | c. canonicalize c = canonicalize a}"
| "lang (OneOf as) = {[c] | c. classMatches as c}"
| "lang (NoneOf as) = {[c] | c. \<not> classMatches as c}"
| "lang (Seq a b) = {u @ v | u v. u \<in> lang a \<and> v \<in> lang b}"
| "lang (Alt a b) = lang a \<union> lang b"
| "lang (Star a) = {concat ws | ws. set ws \<subseteq> lang a}"
| "lang (Group i a) = lang a"

primrec groupLang :: "nat \<Rightarrow> regex \<Rightarrow> string set" where
  "groupLang i Eps = {}"
| "groupLang i (Lit a) = {}"
| "groupLang i (OneOf as) = {}"
| "groupLang i (NoneOf as) = {}"
| "groupLang i (Seq a b) = groupLang i a \<union> groupLang i b"
| "groupLang i (Alt a b) = groupLang i a \<union> groupLang i b"
| "groupLang i (Star a) = groupLang i a"
| "groupLang i (Group j a) = (if i = j then lang a else {}) \<union> groupLang i a"

text \<open>What the two inner loops push for a block with the fields \<open>fam\<close>, \<open>wt\<close>, \<open>sty\<close>, and
  what \<open>parseFontFaces\<close> emits: a descriptor pushed for the fields of some block.\<close>

definition pushed :: "platform \<Rightarrow> string \<Rightarrow> string \<Rightarrow> string \<Rightarrow> string \<Rightarrow> FontInfo \<Rightarrow> bool" where
  "pushed P baseUrl fam wt sty f =
     (family f = fam \<and> style f = sty \<and> weight f = normalizeWeight wt
      \<and> hostname P baseUrl = Some (source f)
      \<and> (\<exists>fontUrl fullUrl. href P fontUrl baseUrl = Some fullUrl \<and> url f = Some fullUrl)
      \<and> format f \<noteq> None)"

definition emitted :: "platform \<Rightarrow> string \<Rightarrow> FontInfo \<Rightarrow> bool" where
  "emitted P baseUrl f =
     (\<exists>block fam wt sty. blockFamily block = Inr fam \<and> blockWeight block = Inr wt
        \<and> blockStyle block = Inr sty \<and> pushed P baseUrl fam wt sty f)"

text \<open>
  The form of the weight and the style of every descriptor the two parsers return: a
  non-empty string of digits, and a style keyword in some letter case.
\<close>

definition normalized :: "FontInfo \<Rightarrow> bool" where
  "normalized f =
     ((case weight f of Str w \<Rightarrow> w \<noteq> [] \<and> list_all isDigit w | Inherited k \<Rightarrow> False)
      \<and> toLowerCase (style f) \<in> set [''normal'', ''italic'', ''oblique''])"

text \<open>
  The descriptors that reach the deduplication: \<open>extractFontsFromCSS\<close> fills its list with
  what \<open>parseFontFaces\<close> returns for the style elements and the linked style sheets and
  with what \<open>parseGoogleFontsUrl\<close> returns for the Google Fonts links, and with nothing
  else.
\<close>

definition parsed :: "platform \<Rightarrow> FontInfo \<Rightarrow> bool" where
  "parsed P f =
     ((\<exists>cssText baseUrl fonts. parseFontFaces P cssText baseUrl = Some (Inr fonts) \<and> f \<in> set fonts)
      \<or> (\<exists>u. f \<in> set (parseGoogleFontsUrl P u)))"



section \<open>The deduplication\<close>

lemma keyed_map_of: "keyed acc \<Longrightarrow> (map_of acc k = None) = (k \<notin> fontKey ` snd ` set acc)"
  by (induction acc) (auto simp: keyed_def)

lemma foldl_reducer:
  "keyed acc \<Longrightarrow>
   map snd (foldl reducer acc fonts) =
     map snd acc @ firstWins (filter (\<lambda>g. fontKey g \<notin> fontKey ` snd ` set acc) fonts)"
proof (induction fonts arbitrary: acc)
  case Nil
  then show ?case by simp
next
  case (Cons f fs)
  show ?case
  proof (cases "fontKey f \<in> fontKey ` snd ` set acc")
    case True
    then have "reducer acc f = acc"
      using Cons.prems by (simp add: reducer_def keyed_map_of)
    then show ?thesis using Cons True by simp
  next
    case False
    then have r: "reducer acc f = acc @ [(fontKey f, f)]"
      using Cons.prems by (simp add: reducer_def keyed_map_of)
    have k: "keyed (acc @ [(fontKey f, f)])"
      using Cons.prems by (simp add: keyed_def)
    have "(\<lambda>g. fontKey g \<notin> fontKey ` snd ` set (acc @ [(fontKey f, f)]))
          = (\<lambda>g. fontKey g \<noteq> fontKey f \<and> fontKey g \<notin> fontKey ` snd ` set acc)"
      by auto
    then show ?thesis using Cons.IH [OF k] r False by (simp add: conj_commute)
  qed
qed

lemma deduplicate_firstWins: "deduplicate fonts = firstWins fonts"
  using foldl_reducer [of "[]" fonts] by (simp add: deduplicate_def uniqueFonts_def keyed_def)

lemma firstWins_keys: "fontKey ` set (firstWins fs) = fontKey ` set fs"
proof (induction fs rule: firstWins.induct)
  case 1
  then show ?case by simp
next
  case (2 f fs)
  then show ?case by auto
qed

lemma firstWins_set: "set (firstWins fs) \<subseteq> set fs"
  by (induction fs rule: firstWins.induct) auto

lemma firstWins_distinct: "distinct (map fontKey (firstWins fs))"
proof (induction fs rule: firstWins.induct)
  case 1
  then show ?case by simp
next
  case (2 f fs)
  have "fontKey f \<notin> fontKey ` set (firstWins (filter (\<lambda>g. fontKey g \<noteq> fontKey f) fs))"
    by (auto simp: firstWins_keys)
  then show ?case using 2 by simp
qed

lemma firstWins_find:
  "map (\<lambda>f. find (\<lambda>g. fontKey g = fontKey f) fs) (firstWins fs) = map Some (firstWins fs)"
proof (induction fs rule: firstWins.induct)
  case 1
  then show ?case by simp
next
  case (2 f fs)
  let ?rest = "filter (\<lambda>g. fontKey g \<noteq> fontKey f) fs"
  have "find (\<lambda>g. fontKey g = fontKey h) (f # fs) = find (\<lambda>g. fontKey g = fontKey h) ?rest"
    if "h \<in> set (firstWins ?rest)" for h
  proof -
    have "fontKey h \<noteq> fontKey f"
      using that firstWins_set [of ?rest] by auto
    moreover have "find (\<lambda>g. fontKey g = k) (filter (\<lambda>g. fontKey g \<noteq> fontKey f) xs)
                     = find (\<lambda>g. fontKey g = k) xs" if "k \<noteq> fontKey f" for k xs
      using that by (induction xs) auto
    ultimately show ?thesis by auto
  qed
  then have "map (\<lambda>h. find (\<lambda>g. fontKey g = fontKey h) (f # fs)) (firstWins ?rest)
           = map (\<lambda>h. find (\<lambda>g. fontKey g = fontKey h) ?rest) (firstWins ?rest)"
    by simp
  then show ?case using 2 by simp
qed

lemma firstWins_subseq: "subseq (firstWins fs) fs"
proof (induction fs rule: firstWins.induct)
  case 1
  then show ?case by simp
next
  case (2 f fs)
  have "subseq (filter (\<lambda>g. fontKey g \<noteq> fontKey f) fs) fs"
    by simp
  with 2 have "subseq (firstWins (filter (\<lambda>g. fontKey g \<noteq> fontKey f) fs)) fs"
    by (rule subseq_order.order_trans)
  then show ?case by simp
qed

section \<open>parseGoogleFontsUrl\<close>

lemma splitOn_not_Nil: "splitOn sep s \<noteq> []"
  by (induction s) (auto split: list.splits)

lemma splitOn_none: "sep \<notin> set s \<Longrightarrow> splitOn sep s = [s]"
  by (induction s) auto

lemma splitOn_first: "sep \<notin> set a \<Longrightarrow> splitOn sep (a @ sep # b) = a # splitOn sep b"
  by (induction a) auto

lemma includes_str_set: "includes_str s sub \<Longrightarrow> set sub \<subseteq> set s"
proof (induction s)
  case Nil
  then show ?case by simp
next
  case (Cons c cs)
  from Cons.prems have "prefix sub (c # cs) \<or> includes_str cs sub" by simp
  then show ?case
  proof
    assume "prefix sub (c # cs)"
    then show ?thesis by (rule set_mono_prefix)
  next
    assume "includes_str cs sub"
    then show ?thesis using Cons.IH by auto
  qed
qed

lemma includes_str_single: "includes_str s [c] = (c \<in> set s)"
  by (induction s) auto

lemma weightFont_eq:
  "weightFont fontName w =
     \<lparr>family = fontName, style = (if CHR ''i'' \<in> set w then ''italic'' else ''normal''),
      weight = Str (if filter isDigit w = [] then ''400'' else filter isDigit w),
      source = ''Google Fonts'', url = None, format = None\<rparr>"
proof -
  have "includes_str w ''italic'' \<Longrightarrow> CHR ''i'' \<in> set w"
    using includes_str_set [of w "''italic''"] by simp
  then show ?thesis
    by (auto simp: weightFont_def Let_def includes_str_single)
qed

lemma familyFonts_google: "list_all (\<lambda>f. source f = ''Google Fonts'' \<and> url f = None \<and> format f = None) new"
  if "familyFonts seg = Inr new"
  using that
  by (auto simp: familyFonts_def Let_def weightFont_eq list_all_iff split: option.splits if_splits)

lemma familiesLoop_google:
  "list_all (\<lambda>f. source f = ''Google Fonts'' \<and> url f = None \<and> format f = None) fonts \<Longrightarrow>
   list_all (\<lambda>f. source f = ''Google Fonts'' \<and> url f = None \<and> format f = None) (familiesLoop segs fonts)"
proof (induction segs arbitrary: fonts)
  case Nil
  then show ?case by simp
next
  case (Cons seg segs)
  show ?case
  proof (cases "familyFonts seg")
    case (Inl e)
    then show ?thesis using Cons.prems by simp
  next
    case (Inr new)
    then show ?thesis using Cons.prems Cons.IH [of "fonts @ new"] familyFonts_google [OF Inr] by simp
  qed
qed

lemma parseGoogleFontsUrl_google:
  "list_all (\<lambda>f. source f = ''Google Fonts'' \<and> url f = None \<and> format f = None) (parseGoogleFontsUrl P u)"
  using familiesLoop_google [of "[]"]
  by (simp add: parseGoogleFontsUrl_def split: option.splits)

text \<open>
  C7. For a link whose \<open>family\<close> parameter is one segment \<open>name:weights\<close>, the parser gives
  one descriptor per comma-separated token of \<open>weights\<close>, in order: the style is italic
  when the token has an \<open>i\<close> in it and normal otherwise, the weight is the digits of the
  token, or 400 when it has none, and the family is the name with \<open>+\<close> as a space. For
  every link, each descriptor has the source "Google Fonts" and neither url nor format.
\<close>

theorem parseGoogleFontsUrl_tokens:
  assumes "searchParamsGet P u ''family'' = Some (Some (name @ '':'' @ weights))"
    and "CHR '':'' \<notin> set name" and "CHR ''|'' \<notin> set name"
    and "weights \<noteq> []" and "CHR '':'' \<notin> set weights" and "CHR ''|'' \<notin> set weights"
  shows "parseGoogleFontsUrl P u =
           map (\<lambda>w. \<lparr>family = map (\<lambda>c. if c = CHR ''+'' then CHR '' '' else c) name,
                      style = (if CHR ''i'' \<in> set w then ''italic'' else ''normal''),
                      weight = Str (if filter isDigit w = [] then ''400'' else filter isDigit w),
                      source = ''Google Fonts'', url = None, format = None\<rparr>)
               (splitOn CHR '','' weights)
         \<and> list_all (\<lambda>f. source f = ''Google Fonts'' \<and> url f = None \<and> format f = None)
              (parseGoogleFontsUrl P u)"
proof -
  have "CHR ''|'' \<notin> set (name @ '':'' @ weights)"
    using assms by simp
  then have segs: "splitOn CHR ''|'' (name @ '':'' @ weights) = [name @ '':'' @ weights]"
    by (rule splitOn_none)
  have parts: "splitOn CHR '':'' (name @ CHR '':'' # weights) = [name, weights]"
    using assms splitOn_first [of "CHR '':''" name weights] by (simp add: splitOn_none)
  have "familyFonts (name @ '':'' @ weights) =
          Inr (map (weightFont (map (\<lambda>c. if c = CHR ''+'' then CHR '' '' else c) name))
                 (splitOn CHR '','' weights))"
    using assms(4) by (simp add: familyFonts_def parts at_def Let_def)
  then show ?thesis
    using assms(1) segs parseGoogleFontsUrl_google [of P u]
    by (simp add: parseGoogleFontsUrl_def weightFont_eq)
qed

text \<open>
  C7, at the parameter \<open>Roboto:400,700i\<close>: exactly the two descriptors Roboto 400 normal
  and Roboto 700 italic.
\<close>

theorem parseGoogleFontsUrl_roboto:
  "parseGoogleFontsUrl samplePlatform ''https://fonts.googleapis.com/css?family=Roboto:400,700i'' =
     [\<lparr>family = ''Roboto'', style = ''normal'', weight = Str ''400'',
       source = ''Google Fonts'', url = None, format = None\<rparr>,
      \<lparr>family = ''Roboto'', style = ''italic'', weight = Str ''700'',
       source = ''Google Fonts'', url = None, format = None\<rparr>]"
  using parseGoogleFontsUrl_tokens [of samplePlatform
      "''https://fonts.googleapis.com/css?family=Roboto:400,700i''" "''Roboto''" "''400,700i''"]
  by (simp add: samplePlatform_def sampleParam_def isDigit_def)

subsection \<open>fetchWithProxy\<close>

lemma tryProxies_error:
  "tryProxies fetch ps t = Inl e \<Longrightarrow>
     e = Error ''All proxies failed'' \<and> list_all (\<lambda>p. \<not> accepted (fetch (p @ encodeURIComponent t))) ps"
  by (induction ps) (auto simp: accepted_def split: fetched.splits if_splits)

lemma tryProxies_response:
  "tryProxies fetch ps t = Inr r \<Longrightarrow>
     \<exists>before p after. ps = before @ p # after \<and> fetch (p @ encodeURIComponent t) = Resolved r \<and> ok r
        \<and> list_all (\<lambda>q. \<not> accepted (fetch (q @ encodeURIComponent t))) before"
proof (induction ps)
  case Nil
  then show ?case by simp
next
  case (Cons p ps)
  show ?case
  proof (cases "accepted (fetch (p @ encodeURIComponent t))")
    case True
    then have "fetch (p @ encodeURIComponent t) = Resolved r \<and> ok r"
      using Cons.prems by (auto simp: accepted_def split: fetched.splits if_splits)
    then have "p # ps = [] @ p # ps \<and> fetch (p @ encodeURIComponent t) = Resolved r \<and> ok r
        \<and> list_all (\<lambda>q. \<not> accepted (fetch (q @ encodeURIComponent t))) []"
      by simp
    then show ?thesis by blast
  next
    case False
    then have "tryProxies fetch ps t = Inr r"
      using Cons.prems by (auto simp: accepted_def split: fetched.splits if_splits)
    then obtain before q after where
      h: "ps = before @ q # after" "fetch (q @ encodeURIComponent t) = Resolved r" "ok r"
         "list_all (\<lambda>q. \<not> accepted (fetch (q @ encodeURIComponent t))) before"
      using Cons.IH by blast
    then have "p # ps = (p # before) @ q # after \<and> fetch (q @ encodeURIComponent t) = Resolved r \<and> ok r
        \<and> list_all (\<lambda>q. \<not> accepted (fetch (q @ encodeURIComponent t))) (p # before)"
      using False by simp
    then show ?thesis by blast
  qed
qed

text \<open>
  C9, as the code has it. The relays are tried in the order of the list, each with the
  request relay + encodeURIComponent(target). When the call returns a response, it is the
  2xx response of a relay, and every relay before that one threw or answered outside 2xx.
  When it throws, every relay did so, and the error is \<open>Error("All proxies failed")\<close>: a
  fixed message; there is no other outcome, so no partial result.
\<close>

theorem fetchWithProxy_outcome:
  "(case fetchWithProxy fetch targetUrl of
      Inr r \<Rightarrow>
        \<exists>before proxy after. CORS_PROXIES = before @ proxy # after
           \<and> fetch (proxy @ encodeURIComponent targetUrl) = Resolved r \<and> ok r
           \<and> list_all (\<lambda>q. \<not> accepted (fetch (q @ encodeURIComponent targetUrl))) before
    | Inl e \<Rightarrow>
        e = Error ''All proxies failed''
        \<and> list_all (\<lambda>q. \<not> accepted (fetch (q @ encodeURIComponent targetUrl))) CORS_PROXIES)"
proof (cases "fetchWithProxy fetch targetUrl")
  case (Inl e)
  then show ?thesis using tryProxies_error [of fetch CORS_PROXIES targetUrl e]
    by (simp add: fetchWithProxy_def)
next
  case (Inr r)
  then show ?thesis using tryProxies_response [of fetch CORS_PROXIES targetUrl r]
    by (simp add: fetchWithProxy_def)
qed

lemma encode_ex: "encodeURIComponent ''https://ex.com/'' = ''https%3A%2F%2Fex.com%2F''"
  by code_simp

text \<open>
  C9, at a course of the relays where the first answers 403 and the second 200: the
  response of the second is returned.
\<close>

theorem fetchWithProxy_second_relay:
  "fetchWithProxy secondRelayUp ''https://ex.com/'' = Inr \<lparr>status = 200, body = ''<html></html>''\<rparr>"
  using fetchWithProxy_outcome [of secondRelayUp "''https://ex.com/''"]
  by (simp add: fetchWithProxy_def CORS_PROXIES_def secondRelayUp_def encode_ex ok_def)

text \<open>
  C9 as stated fails: with every relay down, the error for the target
  \<open>https://ex.com/\<close> is \<open>Error("All proxies failed")\<close>, and the target URL is not in its
  message.
\<close>

theorem fetchWithProxy_error_without_url:
  "fetchWithProxy allRelaysDown ''https://ex.com/'' = Inl (Error ''All proxies failed'')
   \<and> \<not> includes_str ''All proxies failed'' ''https://ex.com/''"
  by (simp add: fetchWithProxy_def CORS_PROXIES_def allRelaysDown_def)

section \<open>normalizeWeight and getFormatFromUrl\<close>

lemma toLowerChar_digit: "isDigit c \<Longrightarrow> toLowerChar c = c"
  by (auto simp: isDigit_def toLowerChar_def)

lemma toLowerCase_digits: "list_all isDigit w \<Longrightarrow> toLowerCase w = w"
  by (induction w) (auto simp: toLowerCase_def toLowerChar_digit)

lemma normalizeWeight_digits: "list_all isDigit w \<Longrightarrow> normalizeWeight w = Str w"
proof -
  assume d: "list_all isDigit w"
  have "map_of weightMap w = None"
  proof (cases w)
    case Nil
    then show ?thesis by (simp add: weightMap_def)
  next
    case (Cons c cs)
    then have "isDigit c" using d by simp
    then show ?thesis using Cons by (auto simp: weightMap_def isDigit_def)
  qed
  moreover have "w \<notin> set objectPrototypeKeys"
  proof (cases w)
    case Nil
    then show ?thesis by (simp add: objectPrototypeKeys_def)
  next
    case (Cons c cs)
    then have "isDigit c" using d by simp
    then show ?thesis using Cons by (auto simp: objectPrototypeKeys_def isDigit_def)
  qed
  ultimately show ?thesis
    using d by (simp add: normalizeWeight_def toLowerCase_digits getProp_def orElse_def)
qed



section \<open>The matcher\<close>

lemma charMatcher_reach:
  "charMatcher p k st = Some res \<Longrightarrow>
     \<exists>st' \<in> {(cs, snd st) | c cs. fst st = c # cs \<and> p c}. k st' = Some res"
  by (auto simp: charMatcher_def split: list.splits if_splits)

lemma repeatMatcher_reach:
  assumes m: "\<And>k st res. m k st = Some res \<Longrightarrow> \<exists>st' \<in> R st. k st' = Some res"
  shows "repeatMatcher m k st = Some res \<Longrightarrow>
           \<exists>st'. (st, st') \<in> {(x, y). y \<in> R x}\<^sup>* \<and> k st' = Some res"
proof (induction "length (fst st)" arbitrary: st rule: less_induct)
  case less
  let ?d = "\<lambda>st'. if length (fst st') < length (fst st) then repeatMatcher m k st' else None"
  from less.prems have unfolded:
    "(case m ?d st of Some r \<Rightarrow> Some r | None \<Rightarrow> k st) = Some res"
    by (subst (asm) repeatMatcher.simps) simp
  show ?case
  proof (cases "m ?d st")
    case None
    with unfolded have "k st = Some res" by simp
    then show ?thesis by blast
  next
    case (Some r)
    with unfolded have "m ?d st = Some res" by simp
    then obtain st1 where st1: "st1 \<in> R st" "?d st1 = Some res"
      using m by blast
    then have shorter: "length (fst st1) < length (fst st)"
      and again: "repeatMatcher m k st1 = Some res"
      by (auto split: if_splits)
    from less.hyps [OF shorter again] obtain st' where
      "(st1, st') \<in> {(x, y). y \<in> R x}\<^sup>*" "k st' = Some res"
      by blast
    moreover have "(st, st1) \<in> {(x, y). y \<in> R x}"
      using st1 by simp
    ultimately have "(st, st') \<in> {(x, y). y \<in> R x}\<^sup>* \<and> k st' = Some res"
      by (meson converse_rtrancl_into_rtrancl)
    then show ?thesis by blast
  qed
qed

lemma matcher_reach: "matcher r k st = Some res \<Longrightarrow> \<exists>st' \<in> reach r st. k st' = Some res"
proof (induction r arbitrary: k st res)
  case Eps
  then show ?case by simp
next
  case (Lit a)
  then show ?case using charMatcher_reach [of "\<lambda>c. canonicalize c = canonicalize a" k st res] by simp
next
  case (OneOf as)
  then show ?case using charMatcher_reach [of "\<lambda>c. classMatches as c" k st res] by simp
next
  case (NoneOf as)
  then show ?case using charMatcher_reach [of "\<lambda>c. \<not> classMatches as c" k st res] by simp
next
  case (Seq a b)
  from Seq.prems have "matcher a (matcher b k) st = Some res" by simp
  then obtain st1 where "st1 \<in> reach a st" "matcher b k st1 = Some res"
    using Seq.IH(1) by blast
  moreover then obtain st2 where "st2 \<in> reach b st1" "k st2 = Some res"
    using Seq.IH(2) by blast
  ultimately show ?case by auto
next
  case (Alt a b)
  show ?case
  proof (cases "matcher a k st")
    case None
    with Alt.prems have "matcher b k st = Some res" by simp
    then obtain st' where "st' \<in> reach b st" "k st' = Some res"
      using Alt.IH(2) by blast
    then show ?thesis by auto
  next
    case (Some r)
    with Alt.prems have "matcher a k st = Some res" by simp
    then obtain st' where "st' \<in> reach a st" "k st' = Some res"
      using Alt.IH(1) by blast
    then show ?thesis by auto
  qed
next
  case (Star a)
  from Star.prems have "repeatMatcher (matcher a) k st = Some res" by simp
  then show ?case
    using repeatMatcher_reach [of "matcher a" "reach a" k st res] Star.IH by simp
next
  case (Group i a)
  let ?k = "\<lambda>st'. k (fst st', (snd st')(i \<mapsto> take (length (fst st) - length (fst st')) (fst st)))"
  from Group.prems have "matcher a ?k st = Some res" by simp
  then obtain st1 where st1: "st1 \<in> reach a st" "?k st1 = Some res"
    using Group.IH by blast
  let ?st' = "(fst st1, (snd st1)(i \<mapsto> take (length (fst st) - length (fst st1)) (fst st)))"
  have "?st' \<in> reach (Group i a) st"
    using st1(1) by auto
  then show ?case using st1(2) by blast
qed

lemma regExpExec_reach:
  "regExpExec r s = Some m \<Longrightarrow> \<exists>s0. length s0 \<le> length s \<and> m \<in> reach r (s0, Map.empty)"
proof (induction s)
  case Nil
  then show ?case using matcher_reach [of r Some "([], Map.empty)" m] by auto
next
  case (Cons c cs)
  show ?case
  proof (cases "matcher r Some (c # cs, Map.empty)")
    case None
    with Cons obtain s0 where "length s0 \<le> length cs" "m \<in> reach r (s0, Map.empty)" by auto
    then have "length s0 \<le> length (c # cs) \<and> m \<in> reach r (s0, Map.empty)" by simp
    then show ?thesis by blast
  next
    case (Some st)
    with Cons.prems have "matcher r Some (c # cs, Map.empty) = Some m" by simp
    then have "m \<in> reach r (c # cs, Map.empty)"
      using matcher_reach [of r Some "(c # cs, Map.empty)" m] by auto
    then show ?thesis by blast
  qed
qed

lemma star_induct:
  assumes "(st, st') \<in> {(x, y). y \<in> R x}\<^sup>*"
    and "\<And>x y. y \<in> R x \<Longrightarrow> Q x \<Longrightarrow> Q y"
    and "Q st"
  shows "Q st'"
  using assms by (induction rule: rtrancl_induct) auto

lemma reach_length: "st' \<in> reach r st \<Longrightarrow> length (fst st') \<le> length (fst st)"
proof (induction r arbitrary: st st')
  case (Seq a b)
  from Seq.prems obtain st1 where s: "st1 \<in> reach a st" "st' \<in> reach b st1" by auto
  then have "length (fst st1) \<le> length (fst st)" "length (fst st') \<le> length (fst st1)"
    using Seq.IH by blast+
  then show ?case by simp
next
  case (Star a)
  then have "(st, st') \<in> {(x, y). y \<in> reach a x}\<^sup>*" by simp
  then show ?case
    by (induction rule: rtrancl_induct) (auto dest: Star.IH)
qed auto

lemma reach_nonEmpty: "nonEmpty r \<Longrightarrow> st' \<in> reach r st \<Longrightarrow> length (fst st') < length (fst st)"
proof (induction r arbitrary: st st')
  case (Seq a b)
  from Seq.prems obtain st1 where s: "st1 \<in> reach a st" "st' \<in> reach b st1" by auto
  then have le: "length (fst st1) \<le> length (fst st)" "length (fst st') \<le> length (fst st1)"
    by (auto dest: reach_length)
  from Seq.prems(1) have "nonEmpty a \<or> nonEmpty b" by simp
  then show ?case
  proof
    assume "nonEmpty a"
    then have "length (fst st1) < length (fst st)" using Seq.IH(1) s by blast
    with le show ?thesis by simp
  next
    assume "nonEmpty b"
    then have "length (fst st') < length (fst st1)" using Seq.IH(2) s by blast
    with le show ?thesis by simp
  qed
qed auto

lemma reach_kept: "st' \<in> reach r st \<Longrightarrow> snd st i \<noteq> None \<Longrightarrow> snd st' i \<noteq> None"
proof (induction r arbitrary: st st')
  case (Seq a b)
  from Seq.prems obtain st1 where s: "st1 \<in> reach a st" "st' \<in> reach b st1" by auto
  then have "snd st1 i \<noteq> None" using Seq.IH(1) Seq.prems(2) by blast
  then show ?case using Seq.IH(2) s by blast
next
  case (Star a)
  then have "(st, st') \<in> {(x, y). y \<in> reach a x}\<^sup>*" by simp
  then show ?case using Star.prems(2)
    by (induction rule: rtrancl_induct) (auto dest: Star.IH)
qed auto

lemma reach_participates: "participates i r \<Longrightarrow> st' \<in> reach r st \<Longrightarrow> snd st' i \<noteq> None"
proof (induction r arbitrary: st st')
  case (Seq a b)
  from Seq.prems obtain st1 where s: "st1 \<in> reach a st" "st' \<in> reach b st1" by auto
  from Seq.prems(1) have "participates i a \<or> participates i b" by simp
  then show ?case
  proof
    assume "participates i a"
    then have "snd st1 i \<noteq> None" using Seq.IH(1) s by blast
    then show ?thesis using reach_kept s by blast
  next
    assume "participates i b"
    then show ?thesis using Seq.IH(2) s by blast
  qed
qed auto

lemma regExpExec_progress:
  "nonEmpty r \<Longrightarrow> regExpExec r s = Some m \<Longrightarrow> length (fst m) < length s"
proof -
  assume n: "nonEmpty r" and "regExpExec r s = Some m"
  then obtain s0 where s0: "length s0 \<le> length s" "m \<in> reach r (s0, Map.empty)"
    using regExpExec_reach by blast
  then have "length (fst m) < length (fst (s0, Map.empty :: captures))"
    using reach_nonEmpty [OF n] by blast
  with s0 show ?thesis by simp
qed

lemma regExpExec_capture:
  "participates i r \<Longrightarrow> regExpExec r s = Some m \<Longrightarrow> \<exists>w. capture m i = Inr w"
proof -
  assume p: "participates i r" and "regExpExec r s = Some m"
  then obtain s0 where "m \<in> reach r (s0, Map.empty)"
    using regExpExec_reach by blast
  then have "snd m i \<noteq> None"
    using reach_participates [OF p] by blast
  then show ?thesis by (auto simp: capture_def)
qed

lemmas regex_defs = fontFaceRegex_def familyRegex_def weightRegex_def styleRegex_def srcRegex_def
  urlRegex_def simpleUrlRegex_def lit_def Opt_def Plus_def

lemma patterns_nonEmpty:
  "nonEmpty fontFaceRegex" "nonEmpty urlRegex" "nonEmpty simpleUrlRegex"
  by (simp_all add: regex_defs)

lemma patterns_participate:
  "participates 1 fontFaceRegex" "participates 1 familyRegex" "participates 1 weightRegex"
  "participates 1 styleRegex" "participates 1 srcRegex" "participates 1 urlRegex"
  "participates 2 urlRegex" "participates 1 simpleUrlRegex"
  by (simp_all add: regex_defs)

lemma reach_word: "st' \<in> reach r st \<Longrightarrow> \<exists>w \<in> lang r. fst st = w @ fst st'"
proof (induction r arbitrary: st st')
  case (Seq a b)
  from Seq.prems obtain st1 where s: "st1 \<in> reach a st" "st' \<in> reach b st1" by auto
  then obtain u v where "u \<in> lang a" "fst st = u @ fst st1" "v \<in> lang b" "fst st1 = v @ fst st'"
    using Seq.IH by blast
  then have "u @ v \<in> lang (Seq a b)" "fst st = (u @ v) @ fst st'" by auto
  then show ?case by blast
next
  case (Alt a b)
  from Alt.prems have "st' \<in> reach a st \<or> st' \<in> reach b st" by simp
  then show ?case
  proof
    assume "st' \<in> reach a st"
    then obtain w where "w \<in> lang a" "fst st = w @ fst st'" using Alt.IH(1) by blast
    then show ?thesis by auto
  next
    assume "st' \<in> reach b st"
    then obtain w where "w \<in> lang b" "fst st = w @ fst st'" using Alt.IH(2) by blast
    then show ?thesis by auto
  qed
next
  case (Star a)
  then have "(st, st') \<in> {(x, y). y \<in> reach a x}\<^sup>*" by simp
  then have "\<exists>ws. set ws \<subseteq> lang a \<and> fst st = concat ws @ fst st'"
  proof (induction rule: rtrancl_induct)
    case base
    have "set [] \<subseteq> lang a \<and> fst st = concat [] @ fst st" by simp
    then show ?case by blast
  next
    case (step y z)
    then obtain ws where ws: "set ws \<subseteq> lang a" "fst st = concat ws @ fst y" by blast
    from step have "z \<in> reach a y" by simp
    then obtain w where w: "w \<in> lang a" "fst y = w @ fst z" using Star.IH by blast
    have "set (ws @ [w]) \<subseteq> lang a \<and> fst st = concat (ws @ [w]) @ fst z"
      using ws w by simp
    then show ?case by blast
  qed
  then show ?case by auto
next
  case (Group i a)
  from Group.prems obtain st1 where st1: "st1 \<in> reach a st" "fst st' = fst st1" by auto
  then obtain w where "w \<in> lang a" "fst st = w @ fst st1" using Group.IH by blast
  then show ?case using st1(2) by auto
next
  case Eps
  then show ?case by simp
next
  case (Lit a)
  then show ?case by auto
next
  case (OneOf as)
  then show ?case by auto
next
  case (NoneOf as)
  then show ?case by auto
qed

lemma reach_group:
  "st' \<in> reach r st \<Longrightarrow> snd st i = None \<Longrightarrow> snd st' i = Some w \<Longrightarrow> w \<in> groupLang i r"
  and reach_group_kept:
  "st' \<in> reach r st \<Longrightarrow> snd st i = Some v \<Longrightarrow> snd st' i = Some w \<Longrightarrow> w = v \<or> w \<in> groupLang i r"
proof (induction r arbitrary: st st' w v)
  case (Seq a b)
  {
    case 1
    from 1(1) obtain st1 where s: "st1 \<in> reach a st" "st' \<in> reach b st1" by auto
    show ?case
    proof (cases "snd st1 i")
      case None
      from Seq.IH(3) [OF s(2) None 1(3)] show ?thesis by simp
    next
      case (Some u)
      from Seq.IH(1) [OF s(1) 1(2) Some] have "u \<in> groupLang i a" .
      moreover from Seq.IH(4) [OF s(2) Some 1(3)] have "w = u \<or> w \<in> groupLang i b" .
      ultimately show ?thesis by auto
    qed
  next
    case 2
    from 2(1) obtain st1 where s: "st1 \<in> reach a st" "st' \<in> reach b st1" by auto
    have "snd st1 i \<noteq> None" using reach_kept [OF s(1)] 2 by simp
    then obtain u where u: "snd st1 i = Some u" by blast
    from Seq.IH(2) [OF s(1) 2(2) u] have "u = v \<or> u \<in> groupLang i a" .
    moreover from Seq.IH(4) [OF s(2) u 2(3)] have "w = u \<or> w \<in> groupLang i b" .
    ultimately show ?case by auto
  }
next
  case (Alt a b)
  {
    case 1
    from 1(1) have "st' \<in> reach a st \<or> st' \<in> reach b st" by simp
    then show ?case using Alt.IH(1) [OF _ 1(2) 1(3)] Alt.IH(3) [OF _ 1(2) 1(3)] by auto
  next
    case 2
    from 2(1) have "st' \<in> reach a st \<or> st' \<in> reach b st" by simp
    then show ?case using Alt.IH(2) [OF _ 2(2) 2(3)] Alt.IH(4) [OF _ 2(2) 2(3)] by auto
  }
next
  case (Star a)
  {
    case 1
    from 1(1) have "(st, st') \<in> {(x, y). y \<in> reach a x}\<^sup>*" by simp
    then have "\<forall>w. snd st' i = Some w \<longrightarrow> w \<in> groupLang i a"
    proof (induction rule: rtrancl_induct)
      case base
      then show ?case using 1 by simp
    next
      case (step y z)
      then have z: "z \<in> reach a y" by simp
      show ?case
      proof (cases "snd y i")
        case None
        then show ?thesis using Star.IH(1) z by blast
      next
        case (Some u)
        then show ?thesis using Star.IH(2) [OF z Some] step by blast
      qed
    qed
    then show ?case using 1 by simp
  next
    case 2
    from 2(1) have "(st, st') \<in> {(x, y). y \<in> reach a x}\<^sup>*" by simp
    then have "\<forall>w. snd st' i = Some w \<longrightarrow> w = v \<or> w \<in> groupLang i a"
    proof (induction rule: rtrancl_induct)
      case base
      then show ?case using 2 by simp
    next
      case (step y z)
      then have z: "z \<in> reach a y" by simp
      have "snd y i \<noteq> None"
      proof (rule star_induct [OF step(1), of "\<lambda>x. snd x i \<noteq> None"])
        show "snd x' i \<noteq> None" if "x' \<in> reach a x" "snd x i \<noteq> None" for x x'
          using that by (rule reach_kept)
        show "snd st i \<noteq> None" using 2(2) by simp
      qed
      then obtain u where u: "snd y i = Some u" by blast
      then show ?case using Star.IH(2) [OF z u] step by blast
    qed
    then show ?case using 2 by simp
  }
next
  case (Group j a)
  {
    case 1
    from 1(1) obtain st1 where s: "st1 \<in> reach a st"
      "st' = (fst st1, (snd st1)(j \<mapsto> take (length (fst st) - length (fst st1)) (fst st)))"
      by auto
    show ?case
    proof (cases "i = j")
      case True
      obtain u where u: "u \<in> lang a" "fst st = u @ fst st1" using reach_word [OF s(1)] by blast
      then have "take (length (fst st) - length (fst st1)) (fst st) = u" by simp
      moreover have "snd st' i = Some (take (length (fst st) - length (fst st1)) (fst st))"
        using s(2) True by simp
      ultimately have "w = u" using 1(3) by simp
      then show ?thesis using u True by simp
    next
      case False
      then have "snd st1 i = Some w" using 1(3) s(2) by simp
      from Group.IH(1) [OF s(1) 1(2) this] show ?thesis by simp
    qed
  next
    case 2
    from 2(1) obtain st1 where s: "st1 \<in> reach a st"
      "st' = (fst st1, (snd st1)(j \<mapsto> take (length (fst st) - length (fst st1)) (fst st)))"
      by auto
    show ?case
    proof (cases "i = j")
      case True
      obtain u where u: "u \<in> lang a" "fst st = u @ fst st1" using reach_word [OF s(1)] by blast
      then have "take (length (fst st) - length (fst st1)) (fst st) = u" by simp
      moreover have "snd st' i = Some (take (length (fst st) - length (fst st1)) (fst st))"
        using s(2) True by simp
      ultimately have "w = u" using 2(3) by simp
      then show ?thesis using u True by simp
    next
      case False
      then have "snd st1 i = Some w" using 2(3) s(2) by simp
      from Group.IH(2) [OF s(1) 2(2) this] show ?thesis by auto
    qed
  }
qed auto

lemma regExpExec_group:
  "regExpExec r s = Some m \<Longrightarrow> capture m i = Inr w \<Longrightarrow> w \<in> groupLang i r"
proof -
  assume "regExpExec r s = Some m" and c: "capture m i = Inr w"
  then obtain s0 where "m \<in> reach r (s0, Map.empty)"
    using regExpExec_reach by blast
  moreover have "snd m i = Some w"
    using c by (simp add: capture_def split: option.splits)
  ultimately show ?thesis using reach_group [of m r "(s0, Map.empty)" i w] by simp
qed



lemma canonicalize_code [code]:
  "canonicalize (Char b0 b1 b2 b3 b4 b5 b6 b7) =
     (if b5 \<and> b6 \<and> \<not> b7 \<and> (b0 \<or> b1 \<or> b2 \<or> b3 \<or> b4) \<and> \<not> (b3 \<and> b4 \<and> (b2 \<or> b0 \<and> b1))
      then Char b0 b1 b2 b3 b4 False b6 b7 else Char b0 b1 b2 b3 b4 b5 b6 b7)"
  by (cases b0; cases b1; cases b2; cases b3; cases b4; cases b5; cases b6; cases b7;
      simp add: canonicalize_def char_of_def bit_Suc_0_iff)

lemma toLowerChar_canonicalize: "toLowerChar (canonicalize c) = toLowerChar c"
proof (cases c)
  case (Char b0 b1 b2 b3 b4 b5 b6 b7)
  show ?thesis
    unfolding Char canonicalize_code
    by (cases b0; cases b1; cases b2; cases b3; cases b4; cases b5; cases b6; cases b7;
        simp add: toLowerChar_def char_of_def bit_Suc_0_iff)
qed



lemma toLowerCase_canonicalize:
  "map canonicalize w = map canonicalize w0 \<Longrightarrow> toLowerCase w = toLowerCase w0"
proof -
  assume "map canonicalize w = map canonicalize w0"
  then have "map toLowerChar (map canonicalize w) = map toLowerChar (map canonicalize w0)"
    by simp
  moreover have "toLowerChar \<circ> canonicalize = toLowerChar"
    by (rule ext) (simp add: toLowerChar_canonicalize)
  ultimately show ?thesis by (simp add: toLowerCase_def)
qed

lemma lang_Seq_Lit:
  "(w \<in> lang (Seq (Lit a) r)) = (\<exists>c cs. w = c # cs \<and> canonicalize c = canonicalize a \<and> cs \<in> lang r)"
proof
  assume "w \<in> lang (Seq (Lit a) r)"
  then obtain u v where "w = u @ v" "u \<in> lang (Lit a)" "v \<in> lang r" by auto
  then show "\<exists>c cs. w = c # cs \<and> canonicalize c = canonicalize a \<and> cs \<in> lang r" by auto
next
  assume "\<exists>c cs. w = c # cs \<and> canonicalize c = canonicalize a \<and> cs \<in> lang r"
  then obtain c cs where "w = [c] @ cs" "[c] \<in> lang (Lit a)" "cs \<in> lang r" by auto
  then show "w \<in> lang (Seq (Lit a) r)" unfolding lang.simps by blast
qed

lemma lang_seqs_Lit: "(w \<in> lang (seqs (map Lit w0))) = (map canonicalize w = map canonicalize w0)"
proof (induction w0 arbitrary: w)
  case Nil
  then show ?case by simp
next
  case (Cons a w0)
  have "(w \<in> lang (seqs (map Lit (a # w0)))) =
        (\<exists>c cs. w = c # cs \<and> canonicalize c = canonicalize a \<and> cs \<in> lang (seqs (map Lit w0)))"
    by (simp only: list.map seqs.simps lang_Seq_Lit)
  also have "\<dots> = (\<exists>c cs. w = c # cs \<and> canonicalize c = canonicalize a
                         \<and> map canonicalize cs = map canonicalize w0)"
    by (simp only: Cons.IH)
  also have "\<dots> = (map canonicalize w = map canonicalize (a # w0))"
    by (cases w) auto
  finally show ?case .
qed

lemma lang_lit: "(w \<in> lang (lit w0)) = (map canonicalize w = map canonicalize w0)"
  by (simp add: lit_def lang_seqs_Lit)

lemma groupLang_lit: "groupLang i (lit w0) = {}"
proof -
  have "groupLang i (seqs (map Lit w0)) = {}" by (induction w0) auto
  then show ?thesis by (simp add: lit_def)
qed

lemma lang_star_class:
  "w \<in> lang (Star (OneOf as)) \<Longrightarrow> list_all (classMatches as) w"
  "w \<in> lang (Star (NoneOf as)) \<Longrightarrow> list_all (\<lambda>c. \<not> classMatches as c) w"
proof -
  have "list_all p (concat ws)" if "set ws \<subseteq> {[c] | c. p c}" for p :: "char \<Rightarrow> bool" and ws
    using that by (induction ws) auto
  from this [of _ "classMatches as"] this [of _ "\<lambda>c. \<not> classMatches as c"]
  show "w \<in> lang (Star (OneOf as)) \<Longrightarrow> list_all (classMatches as) w"
    and "w \<in> lang (Star (NoneOf as)) \<Longrightarrow> list_all (\<lambda>c. \<not> classMatches as c) w"
    by auto
qed

lemma lang_plus_class:
  "w \<in> lang (Plus (OneOf as)) \<Longrightarrow> w \<noteq> [] \<and> list_all (classMatches as) w"
  "w \<in> lang (Plus (NoneOf as)) \<Longrightarrow> w \<noteq> [] \<and> list_all (\<lambda>c. \<not> classMatches as c) w"
proof -
  assume "w \<in> lang (Plus (OneOf as))"
  then obtain u v where "w = u @ v" "u \<in> lang (OneOf as)" "v \<in> lang (Star (OneOf as))"
    unfolding Plus_def lang.simps(5) by blast
  moreover then obtain c where "u = [c]" "classMatches as c" by auto
  ultimately show "w \<noteq> [] \<and> list_all (classMatches as) w"
    using lang_star_class(1) [of v as] by simp
next
  assume "w \<in> lang (Plus (NoneOf as))"
  then obtain u v where "w = u @ v" "u \<in> lang (NoneOf as)" "v \<in> lang (Star (NoneOf as))"
    unfolding Plus_def lang.simps(5) by blast
  moreover then obtain c where "u = [c]" "\<not> classMatches as c" by auto
  ultimately show "w \<noteq> [] \<and> list_all (\<lambda>c. \<not> classMatches as c) w"
    using lang_star_class(2) [of v as] by simp
qed

lemma groupLang_plus_class: "groupLang i (Plus (OneOf as)) = {}" "groupLang i (Plus (NoneOf as)) = {}"
  by (simp_all add: Plus_def)

lemma keywords_lower:
  "toLowerCase ''normal'' = ''normal''" "toLowerCase ''bold'' = ''bold''"
  "toLowerCase ''lighter'' = ''lighter''" "toLowerCase ''bolder'' = ''bolder''"
  "toLowerCase ''italic'' = ''italic''" "toLowerCase ''oblique'' = ''oblique''"
  by code_simp+



lemma lang_lit_lower:
  assumes "wt \<in> lang (lit w0)" and "toLowerCase w0 = w0"
  shows "toLowerCase wt = w0"
proof -
  from assms(1) have "map canonicalize wt = map canonicalize w0"
    by (simp only: lang_lit)
  then have "toLowerCase wt = toLowerCase w0"
    by (rule toLowerCase_canonicalize)
  with assms(2) show ?thesis by simp
qed

lemma weightRegex_group:
  assumes "wt \<in> groupLang 1 weightRegex"
  shows "wt \<noteq> [] \<and> list_all isDigit wt
     \<or> toLowerCase wt \<in> {''normal'', ''bold'', ''lighter'', ''bolder''}"
proof -
  from assms have "wt \<in> lang (Plus (OneOf [Digit])) \<or> wt \<in> lang (lit ''normal'')
      \<or> wt \<in> lang (lit ''bold'') \<or> wt \<in> lang (lit ''lighter'') \<or> wt \<in> lang (lit ''bolder'')"
    by (simp add: weightRegex_def groupLang_lit groupLang_plus_class)
  then show ?thesis
  proof (elim disjE)
    assume 1: "wt \<in> lang (Plus (OneOf [Digit]))"
    show ?thesis
      using lang_plus_class(1) [OF 1] by (simp add: classMatches_def list_all_iff)
  next
    assume 2: "wt \<in> lang (lit ''normal'')"
    from lang_lit_lower [OF 2 keywords_lower(1)] show ?thesis by simp
  next
    assume 3: "wt \<in> lang (lit ''bold'')"
    from lang_lit_lower [OF 3 keywords_lower(2)] show ?thesis by simp
  next
    assume 4: "wt \<in> lang (lit ''lighter'')"
    from lang_lit_lower [OF 4 keywords_lower(3)] show ?thesis by simp
  next
    assume 5: "wt \<in> lang (lit ''bolder'')"
    from lang_lit_lower [OF 5 keywords_lower(4)] show ?thesis by simp
  qed
qed

lemma styleRegex_group:
  assumes "sty \<in> groupLang 1 styleRegex"
  shows "toLowerCase sty \<in> {''normal'', ''italic'', ''oblique''}"
proof -
  from assms have "sty \<in> lang (lit ''normal'') \<or> sty \<in> lang (lit ''italic'')
      \<or> sty \<in> lang (lit ''oblique'')"
    by (simp add: styleRegex_def groupLang_lit)
  then show ?thesis
  proof (elim disjE)
    assume 1: "sty \<in> lang (lit ''normal'')"
    from lang_lit_lower [OF 1 keywords_lower(1)] show ?thesis by simp
  next
    assume 2: "sty \<in> lang (lit ''italic'')"
    from lang_lit_lower [OF 2 keywords_lower(5)] show ?thesis by simp
  next
    assume 3: "sty \<in> lang (lit ''oblique'')"
    from lang_lit_lower [OF 3 keywords_lower(6)] show ?thesis by simp
  qed
qed

lemma normalizeWeight_keyword:
  "toLowerCase wt = ''normal'' \<Longrightarrow> normalizeWeight wt = Str ''400''"
  "toLowerCase wt = ''bold'' \<Longrightarrow> normalizeWeight wt = Str ''700''"
  "toLowerCase wt = ''lighter'' \<Longrightarrow> normalizeWeight wt = Str ''300''"
  "toLowerCase wt = ''bolder'' \<Longrightarrow> normalizeWeight wt = Str ''700''"
  by (simp_all add: normalizeWeight_def getProp_def weightMap_def orElse_def)

lemma blockWeight_numeric:
  assumes "blockWeight block = Inr wt"
  shows "\<exists>w. normalizeWeight wt = Str w \<and> w \<noteq> [] \<and> list_all isDigit w"
proof (cases "regExpExec weightRegex block")
  case None
  with assms have "wt = ''400''" by (simp add: blockWeight_def)
  then have "normalizeWeight wt = Str ''400''"
    using normalizeWeight_digits [of "''400''"] by (simp add: isDigit_def)
  then show ?thesis by (simp add: isDigit_def)
next
  case (Some m)
  with assms have "capture m 1 = Inr wt" by (simp add: blockWeight_def)
  from regExpExec_group [OF Some this] have "wt \<noteq> [] \<and> list_all isDigit wt
     \<or> toLowerCase wt \<in> {''normal'', ''bold'', ''lighter'', ''bolder''}"
    by (rule weightRegex_group)
  then show ?thesis
    using normalizeWeight_digits [of wt] normalizeWeight_keyword [of wt]
    by (auto simp: isDigit_def)
qed

lemma blockStyle_keyword:
  assumes "blockStyle block = Inr sty"
  shows "toLowerCase sty \<in> {''normal'', ''italic'', ''oblique''}"
proof (cases "regExpExec styleRegex block")
  case None
  with assms have "sty = ''normal''" by (simp add: blockStyle_def)
  then show ?thesis using keywords_lower(1) by simp
next
  case (Some m)
  with assms have "capture m 1 = Inr sty" by (simp add: blockStyle_def)
  from regExpExec_group [OF Some this] show ?thesis
    by (rule styleRegex_group)
qed

section \<open>parseFontFaces\<close>

lemma tryPushFont_cases:
  "tryPushFont P b fam wt sty u fmt fonts = fonts
   \<or> (\<exists>f. tryPushFont P b fam wt sty u fmt fonts = fonts @ [f] \<and> pushed P b fam wt sty f)"
  by (auto simp: tryPushFont_def pushFont_def pushed_def split: option.splits)

lemma tryPushFont_appends:
  "\<exists>new. tryPushFont P b fam wt sty u fmt fonts = fonts @ new \<and> list_all (pushed P b fam wt sty) new"
proof -
  from tryPushFont_cases [of P b fam wt sty u fmt fonts] show ?thesis
  proof
    assume "tryPushFont P b fam wt sty u fmt fonts = fonts"
    then have "tryPushFont P b fam wt sty u fmt fonts = fonts @ []
        \<and> list_all (pushed P b fam wt sty) []" by simp
    then show ?thesis by blast
  next
    assume "\<exists>f. tryPushFont P b fam wt sty u fmt fonts = fonts @ [f] \<and> pushed P b fam wt sty f"
    then obtain f where "tryPushFont P b fam wt sty u fmt fonts = fonts @ [f]
        \<and> list_all (pushed P b fam wt sty) [f]" by auto
    then show ?thesis by blast
  qed
qed

lemma urlFormatLoop_returns:
  "\<exists>new. urlFormatLoop P b fam wt sty s fonts = Some (Inr (fonts @ new))
         \<and> list_all (pushed P b fam wt sty) new"
proof (induction "length s" arbitrary: s fonts rule: less_induct)
  case less
  show ?case
  proof (cases "regExpExec urlRegex s")
    case None
    then have "urlFormatLoop P b fam wt sty s fonts = Some (Inr (fonts @ []))
        \<and> list_all (pushed P b fam wt sty) []"
      by (subst urlFormatLoop.simps) simp
    then show ?thesis by blast
  next
    case (Some m)
    obtain fontUrl where c1: "capture m 1 = Inr fontUrl"
      using regExpExec_capture [OF patterns_participate(6) Some] by blast
    obtain fmt where c2: "capture m 2 = Inr fmt"
      using regExpExec_capture [OF patterns_participate(7) Some] by blast
    have shorter: "length (fst m) < length s"
      using regExpExec_progress [OF patterns_nonEmpty(2) Some] .
    let ?fonts = "tryPushFont P b fam wt sty fontUrl (Str (toLowerCase fmt)) fonts"
    obtain new1 where n1: "?fonts = fonts @ new1" "list_all (pushed P b fam wt sty) new1"
      using tryPushFont_appends by blast
    obtain new2 where n2: "urlFormatLoop P b fam wt sty (fst m) ?fonts = Some (Inr (?fonts @ new2))"
        "list_all (pushed P b fam wt sty) new2"
      using less [OF shorter] by blast
    have "urlFormatLoop P b fam wt sty s fonts = urlFormatLoop P b fam wt sty (fst m) ?fonts"
      by (subst urlFormatLoop.simps) (simp add: Some c1 [unfolded One_nat_def] c2)
    then have "urlFormatLoop P b fam wt sty s fonts = Some (Inr (fonts @ (new1 @ new2)))
        \<and> list_all (pushed P b fam wt sty) (new1 @ new2)"
      using n1 n2 by simp
    then show ?thesis by blast
  qed
qed

lemma simpleUrlLoop_returns:
  "\<exists>new. simpleUrlLoop P b fam wt sty s fonts = Some (Inr (fonts @ new))
         \<and> list_all (pushed P b fam wt sty) new"
proof (induction "length s" arbitrary: s fonts rule: less_induct)
  case less
  show ?case
  proof (cases "regExpExec simpleUrlRegex s")
    case None
    then have "simpleUrlLoop P b fam wt sty s fonts = Some (Inr (fonts @ []))
        \<and> list_all (pushed P b fam wt sty) []"
      by (subst simpleUrlLoop.simps) simp
    then show ?thesis by blast
  next
    case (Some m)
    obtain fontUrl where c1: "capture m 1 = Inr fontUrl"
      using regExpExec_capture [OF patterns_participate(8) Some] by blast
    have shorter: "length (fst m) < length s"
      using regExpExec_progress [OF patterns_nonEmpty(3) Some] .
    show ?thesis
    proof (cases "alreadyMatched fonts fontUrl")
      case True
      have "simpleUrlLoop P b fam wt sty s fonts = simpleUrlLoop P b fam wt sty (fst m) fonts"
        by (subst simpleUrlLoop.simps) (simp add: Some c1 [unfolded One_nat_def] True)
      then show ?thesis using less [OF shorter, of fonts] by simp
    next
      case False
      let ?fonts = "tryPushFont P b fam wt sty fontUrl (getFormatFromUrl fontUrl) fonts"
      obtain new1 where n1: "?fonts = fonts @ new1" "list_all (pushed P b fam wt sty) new1"
        using tryPushFont_appends by blast
      obtain new2 where n2: "simpleUrlLoop P b fam wt sty (fst m) ?fonts = Some (Inr (?fonts @ new2))"
          "list_all (pushed P b fam wt sty) new2"
        using less [OF shorter] by blast
      have "simpleUrlLoop P b fam wt sty s fonts = simpleUrlLoop P b fam wt sty (fst m) ?fonts"
        by (subst simpleUrlLoop.simps) (simp add: Some c1 [unfolded One_nat_def] False)
      then have "simpleUrlLoop P b fam wt sty s fonts = Some (Inr (fonts @ (new1 @ new2)))
          \<and> list_all (pushed P b fam wt sty) (new1 @ new2)"
        using n1 n2 by simp
      then show ?thesis by blast
    qed
  qed
qed

lemma blockFamily_returns: "\<exists>fam. blockFamily block = Inr fam"
proof (cases "regExpExec familyRegex block")
  case None
  then show ?thesis by (simp add: blockFamily_def)
next
  case (Some m)
  then show ?thesis
    using regExpExec_capture [OF patterns_participate(2) Some] by (auto simp: blockFamily_def)
qed

lemma blockWeight_returns: "\<exists>wt. blockWeight block = Inr wt"
proof (cases "regExpExec weightRegex block")
  case None
  then show ?thesis by (simp add: blockWeight_def)
next
  case (Some m)
  then show ?thesis
    using regExpExec_capture [OF patterns_participate(3) Some] by (auto simp: blockWeight_def)
qed

lemma blockStyle_returns: "\<exists>sty. blockStyle block = Inr sty"
proof (cases "regExpExec styleRegex block")
  case None
  then show ?thesis by (simp add: blockStyle_def)
next
  case (Some m)
  then show ?thesis
    using regExpExec_capture [OF patterns_participate(4) Some] by (auto simp: blockStyle_def)
qed

lemma parseBlock_pushed:
  assumes f: "blockFamily block = Inr fam" "blockWeight block = Inr wt" "blockStyle block = Inr sty"
  shows "\<exists>new. parseBlock P b block fonts = Some (Inr (fonts @ new))
           \<and> list_all (pushed P b fam wt sty) new"
proof (cases "regExpExec srcRegex block")
  case None
  then have "parseBlock P b block fonts = Some (Inr (fonts @ []))
      \<and> list_all (pushed P b fam wt sty) []"
    by (simp add: parseBlock_def f)
  then show ?thesis by blast
next
  case (Some m)
  obtain srcValue where c: "capture m 1 = Inr srcValue"
    using regExpExec_capture [OF patterns_participate(5) Some] by blast
  obtain new1 where n1: "urlFormatLoop P b fam wt sty srcValue fonts = Some (Inr (fonts @ new1))"
      "list_all (pushed P b fam wt sty) new1"
    using urlFormatLoop_returns by blast
  obtain new2 where n2:
      "simpleUrlLoop P b fam wt sty srcValue (fonts @ new1) = Some (Inr ((fonts @ new1) @ new2))"
      "list_all (pushed P b fam wt sty) new2"
    using simpleUrlLoop_returns by blast
  have "parseBlock P b block fonts = Some (Inr (fonts @ (new1 @ new2)))"
    by (simp add: parseBlock_def f Some c [unfolded One_nat_def] n1 n2)
  moreover have "list_all (pushed P b fam wt sty) (new1 @ new2)"
    using n1(2) n2(2) by simp
  ultimately show ?thesis by blast
qed

lemma parseBlock_returns:
  "\<exists>new. parseBlock P b block fonts = Some (Inr (fonts @ new)) \<and> list_all (emitted P b) new"
proof -
  obtain fam wt sty where f: "blockFamily block = Inr fam" "blockWeight block = Inr wt"
      "blockStyle block = Inr sty"
    using blockFamily_returns blockWeight_returns blockStyle_returns by blast
  have "emitted P b x" if "pushed P b fam wt sty x" for x
    unfolding emitted_def using that f by blast
  then have "list_all (emitted P b) new" if "list_all (pushed P b fam wt sty) new" for new
    using that by (simp add: list_all_iff)
  then show ?thesis using parseBlock_pushed [OF f, of P b fonts] by blast
qed

lemma fontFaceLoop_returns:
  "\<exists>new. fontFaceLoop P b s fonts = Some (Inr (fonts @ new)) \<and> list_all (emitted P b) new"
proof (induction "length s" arbitrary: s fonts rule: less_induct)
  case less
  show ?case
  proof (cases "regExpExec fontFaceRegex s")
    case None
    then have "fontFaceLoop P b s fonts = Some (Inr (fonts @ [])) \<and> list_all (emitted P b) []"
      by (subst fontFaceLoop.simps) simp
    then show ?thesis by blast
  next
    case (Some m)
    obtain block where c: "capture m 1 = Inr block"
      using regExpExec_capture [OF patterns_participate(1) Some] by blast
    have shorter: "length (fst m) < length s"
      using regExpExec_progress [OF patterns_nonEmpty(1) Some] .
    obtain new1 where n1: "parseBlock P b block fonts = Some (Inr (fonts @ new1))"
        "list_all (emitted P b) new1"
      using parseBlock_returns by blast
    obtain new2 where n2: "fontFaceLoop P b (fst m) (fonts @ new1) = Some (Inr ((fonts @ new1) @ new2))"
        "list_all (emitted P b) new2"
      using less [OF shorter] by blast
    have "fontFaceLoop P b s fonts = fontFaceLoop P b (fst m) (fonts @ new1)"
      by (subst fontFaceLoop.simps) (simp add: Some c [unfolded One_nat_def] n1)
    then have "fontFaceLoop P b s fonts = Some (Inr (fonts @ (new1 @ new2)))
        \<and> list_all (emitted P b) (new1 @ new2)"
      using n1 n2 by simp
    then show ?thesis by blast
  qed
qed

lemma parseFontFaces_returns:
  "\<exists>fs. parseFontFaces P cssText baseUrl = Some (Inr fs) \<and> list_all (emitted P baseUrl) fs"
  using fontFaceLoop_returns [of P baseUrl cssText "[]"] by (simp add: parseFontFaces_def)

lemma emitted_fields:
  assumes "emitted P b f"
  shows "(\<exists>w. weight f = Str w \<and> w \<noteq> [] \<and> list_all isDigit w)
    \<and> toLowerCase (style f) \<in> {''normal'', ''italic'', ''oblique''}
    \<and> (\<exists>fontUrl fullUrl. href P fontUrl b = Some fullUrl \<and> url f = Some fullUrl)
    \<and> hostname P b = Some (source f) \<and> format f \<noteq> None"
proof -
  from assms obtain block fam wt sty where
    h: "blockFamily block = Inr fam" "blockWeight block = Inr wt" "blockStyle block = Inr sty"
       "pushed P b fam wt sty f"
    by (auto simp: emitted_def)
  from blockWeight_numeric [OF h(2)] blockStyle_keyword [OF h(3)] h(4)
  show ?thesis by (simp add: pushed_def)
qed


text \<open>
  C2 fails on the code. For a block whose body holds \<open>@supports (x) { y: z }\<close>, the pattern
  captures the body up to the first closing brace, the inner one: \<open>[^}]*\<close> reads the
  opening brace as well, so the optional nested part never takes part. The \<open>src\<close> after
  the inner block is lost, and the parser returns no descriptor.
\<close>

theorem fontFaceRegex_truncates_nested_block:
  "map_option (\<lambda>m. (snd m 1, fst m)) (regExpExec fontFaceRegex nestedCss)
     = Some (Some '' font-family: \"Acme\"; @supports (x) { y: z '',
             '' src: url(a.woff2) format(\"woff2\"); }'')
   \<and> parseFontFaces samplePlatform nestedCss ''https://ex.com/css/a.css'' = Some (Inr [])"
  by code_simp

text \<open>
  C3 fails on the code. For \<open>font-family: ""\<close> the family pattern backtracks to the
  blank before the quotes, captures it, and \<open>trim\<close> leaves the empty string: the
  descriptor is emitted with an empty family, not with "Unknown".
\<close>

theorem parseFontFaces_empty_family:
  "parseFontFaces samplePlatform
     ''@font-face { font-family: \"\"; src: url(a.woff2) format(\"woff2\"); }''
     ''https://ex.com/css/a.css''
   = Some (Inr [\<lparr>family = [], style = ''normal'', weight = Str ''400'',
                 source = ''ex.com'', url = Some ''https://ex.com/css/a.woff2'',
                 format = Some (Str ''woff2'')\<rparr>])"
  by code_simp

text \<open>
  C6 fails on the code. For \<open>url(../fonts/x.ttf) format("woff2")\<close> the resolved URL
  \<open>https://ex.com/fonts/x.ttf\<close> does not contain the text \<open>../fonts/x.ttf\<close>, so the second
  loop does not skip the entry: the same URL is emitted twice, with the declared format
  and with the format of its extension.
\<close>

theorem parseFontFaces_declared_and_inferred:
  "parseFontFaces samplePlatform
     ''@font-face{font-family:\"Acme\";src:url(../fonts/x.ttf) format(\"woff2\");}''
     ''https://ex.com/css/a.css''
   = Some (Inr [\<lparr>family = ''Acme'', style = ''normal'', weight = Str ''400'',
                 source = ''ex.com'', url = Some ''https://ex.com/fonts/x.ttf'',
                 format = Some (Str ''woff2'')\<rparr>,
                \<lparr>family = ''Acme'', style = ''normal'', weight = Str ''400'',
                 source = ''ex.com'', url = Some ''https://ex.com/fonts/x.ttf'',
                 format = Some (Str ''truetype'')\<rparr>])"
  by code_simp





subsection \<open>A well-formed src value\<close>








lemma matcher_Lit_other:
  "canonicalize x \<noteq> canonicalize a \<Longrightarrow> matcher (Lit a) k (x # s, c) = None"
  "matcher (Lit a) k ([], c) = None"
  by (simp_all add: charMatcher_def)




lemma repeat_class_stop:
  "s = [] \<or> \<not> p (hd s) \<Longrightarrow> repeatMatcher (charMatcher p) k (s, c) = k (s, c)"
  by (subst repeatMatcher.simps) (cases s; auto simp: charMatcher_def)

lemma repeat_class_step:
  "p x \<Longrightarrow> repeatMatcher (charMatcher p) k (x # s, c) =
     (case repeatMatcher (charMatcher p) k (s, c) of Some r \<Rightarrow> Some r | None \<Rightarrow> k (x # s, c))"
  by (subst repeatMatcher.simps) (simp add: charMatcher_def)

lemma repeat_class_greedy:
  assumes "list_all p w" and "s = [] \<or> \<not> p (hd s)" and "k (s, c) = Some r"
  shows "repeatMatcher (charMatcher p) k (w @ s, c) = Some r"
  using assms(1)
proof (induction w)
  case Nil
  then show ?case using assms(2,3) by (simp add: repeat_class_stop)
next
  case (Cons x w)
  then show ?case by (simp add: repeat_class_step)
qed

lemma matcher_class_fun:
  "matcher (OneOf as) = charMatcher (classMatches as)"
  "matcher (NoneOf as) = charMatcher (\<lambda>c. \<not> classMatches as c)"
  by (intro ext, simp)+






lemma matcher_seqs_Cons: "matcher (seqs (r # rs)) k = matcher r (matcher (seqs rs) k)"
  by (rule ext) simp
















subsection \<open>The block pattern\<close>

lemma canonicalize_brace:
  "(canonicalize c = CHR ''}'') = (c = CHR ''}'')"
  "(canonicalize c = CHR ''{'') = (c = CHR ''{'')"
  "canonicalize CHR ''}'' = CHR ''}''" "canonicalize CHR ''{'' = CHR ''{''"
  by (cases c; simp add: canonicalize_code; blast)+

lemma classMatches_brace: "classMatches [Ch CHR ''}''] c = (c = CHR ''}'')"
  by (simp add: classMatches_def canonicalize_brace)

lemma matcher_Eps_fun: "matcher Eps k = k"
  by (rule ext) simp

lemma reach_groupfree:
  assumes "st' \<in> reach r st" and "\<And>i. groupLang i r = {}" and "snd st = Map.empty"
  shows "snd st' = Map.empty"
proof (rule ext)
  fix i
  show "snd st' i = Map.empty i"
  proof (cases "snd st' i")
    case None
    then show ?thesis by simp
  next
    case (Some w)
    have "snd st i = None" using assms(3) by simp
    from reach_group [OF assms(1) this Some] assms(2) show ?thesis by simp
  qed
qed

lemma block_and_brace:
  assumes "CHR ''}'' \<in> set s"
  shows "matcher (seqs [Group 1 (seqs [Star (NoneOf [Ch CHR ''}'']),
                                        Star (seqs [Lit CHR ''{'', Star (NoneOf [Ch CHR ''}'']),
                                                    Lit CHR ''}'', Star (NoneOf [Ch CHR ''}''])])]),
                        Lit CHR ''}'']) Some (s, c)
         = Some (tl (dropWhile (\<lambda>x. x \<noteq> CHR ''}'') s), c(1 \<mapsto> takeWhile (\<lambda>x. x \<noteq> CHR ''}'') s))"
proof -
  let ?w = "takeWhile (\<lambda>x. x \<noteq> CHR ''}'') s"
  let ?t = "tl (dropWhile (\<lambda>x. x \<noteq> CHR ''}'') s)"
  let ?G = "seqs [Lit CHR ''{'', Star (NoneOf [Ch CHR ''}'']), Lit CHR ''}'',
                  Star (NoneOf [Ch CHR ''}''])]"
  let ?K = "matcher (seqs [Lit CHR ''}'']) Some"
  let ?K' = "\<lambda>st'. ?K (fst st', (snd st')(1 \<mapsto> take (length s - length (fst st')) s))"
  let ?K2 = "matcher (seqs [Star ?G]) ?K'"
  have "dropWhile (\<lambda>x. x \<noteq> CHR ''}'') s \<noteq> []"
    using assms by (simp add: dropWhile_eq_Nil_conv)
  moreover have "hd (dropWhile (\<lambda>x. x \<noteq> CHR ''}'') s) = CHR ''}''"
    using assms hd_dropWhile [of "\<lambda>x. x \<noteq> CHR ''}''" s] calculation by auto
  ultimately have d: "dropWhile (\<lambda>x. x \<noteq> CHR ''}'') s = CHR ''}'' # ?t"
    by (cases "dropWhile (\<lambda>x. x \<noteq> CHR ''}'') s") auto
  have s: "s = ?w @ CHR ''}'' # ?t"
    using takeWhile_dropWhile_id [of "\<lambda>x. x \<noteq> CHR ''}''" s] d by simp
  have len: "take (length s - length (CHR ''}'' # ?t)) s = ?w"
    using s by (metis add_diff_cancel_right' append_eq_conv_conj length_append)
  have k: "?K (CHR ''}'' # ?t, c') = Some (?t, c')" for c'
    by (simp add: charMatcher_def)
  have "matcher ?G d (CHR ''}'' # ?t, c) = None" for d
    by (simp add: charMatcher_def canonicalize_brace)
  then have "repeatMatcher (matcher ?G) ?K' (CHR ''}'' # ?t, c) = ?K' (CHR ''}'' # ?t, c)"
    by (subst repeatMatcher.simps) simp
  then have k2: "?K2 (CHR ''}'' # ?t, c) = Some (?t, c(1 \<mapsto> ?w))"
    using k len by (simp add: matcher_Eps_fun)
  have "list_all (\<lambda>x. \<not> classMatches [Ch CHR ''}''] x) ?w"
    using set_takeWhileD [of _ "\<lambda>x. x \<noteq> CHR ''}''" s]
    by (auto simp: classMatches_brace list_all_iff)
  moreover have "CHR ''}'' # ?t = [] \<or> \<not> \<not> classMatches [Ch CHR ''}''] (hd (CHR ''}'' # ?t))"
    by (simp add: classMatches_brace)
  ultimately have "repeatMatcher (charMatcher (\<lambda>x. \<not> classMatches [Ch CHR ''}''] x)) ?K2
                     (?w @ CHR ''}'' # ?t, c) = Some (?t, c(1 \<mapsto> ?w))"
    using k2 by (rule repeat_class_greedy [where k = ?K2])
  then have "repeatMatcher (charMatcher (\<lambda>x. \<not> classMatches [Ch CHR ''}''] x)) ?K2 (s, c)
             = Some (?t, c(1 \<mapsto> ?w))"
    using s by simp
  then show ?thesis
    by (simp add: matcher_class_fun matcher_Eps_fun)
qed


lemma block_needs_brace:
  assumes "matcher (seqs [Group 1 (seqs [Star (NoneOf [Ch CHR ''}'']),
                                        Star (seqs [Lit CHR ''{'', Star (NoneOf [Ch CHR ''}'']),
                                                    Lit CHR ''}'', Star (NoneOf [Ch CHR ''}''])])]),
                        Lit CHR ''}'']) Some (s, c) = Some m"
  shows "CHR ''}'' \<in> set s"
proof -
  let ?B = "Group 1 (seqs [Star (NoneOf [Ch CHR ''}'']),
                           Star (seqs [Lit CHR ''{'', Star (NoneOf [Ch CHR ''}'']),
                                       Lit CHR ''}'', Star (NoneOf [Ch CHR ''}''])])])"
  from assms have "matcher ?B (matcher (Lit CHR ''}'') Some) (s, c) = Some m"
    by (simp only: matcher_seqs_Cons seqs.simps(1) matcher_Eps_fun)
  then obtain st1 where st1: "st1 \<in> reach ?B (s, c)" "matcher (Lit CHR ''}'') Some st1 = Some m"
    using matcher_reach by blast
  from st1(2) obtain t where "fst st1 = CHR ''}'' # t"
    by (cases "fst st1") (auto simp: charMatcher_def canonicalize_brace split: if_splits)
  moreover obtain w where "s = w @ fst st1"
    using reach_word [OF st1(1)] by auto
  ultimately show ?thesis by simp
qed

text \<open>
  For every input, the block the pattern captures has no closing brace in it: the match
  ends at the first \<open>}\<close> after the opening brace, nested or not.
\<close>

lemma fontFaceRegex_block_stops_at_first_brace:
  assumes "regExpExec fontFaceRegex cssText = Some m"
  shows "\<exists>block. capture m 1 = Inr block \<and> CHR ''}'' \<notin> set block"
proof -
  let ?R45 = "seqs [Group 1 (seqs [Star (NoneOf [Ch CHR ''}'']),
                                   Star (seqs [Lit CHR ''{'', Star (NoneOf [Ch CHR ''}'']),
                                               Lit CHR ''}'', Star (NoneOf [Ch CHR ''}''])])]),
                    Lit CHR ''}'']"
  let ?K45 = "matcher ?R45 Some"
  have exec: "\<exists>s0. matcher fontFaceRegex Some (s0, Map.empty) = Some m"
    using assms
  proof (induction cssText)
    case Nil
    then show ?case by auto
  next
    case (Cons x xs)
    then show ?case
      by (cases "matcher fontFaceRegex Some (x # xs, Map.empty)") auto
  qed
  then obtain s0 where "matcher fontFaceRegex Some (s0, Map.empty) = Some m" by blast
  then have "matcher (lit ''@font-face'')
               (matcher (Star (OneOf [Space])) (matcher (Lit CHR ''{'') ?K45))
               (s0, Map.empty) = Some m"
    unfolding fontFaceRegex_def by (simp only: matcher_seqs_Cons)
  then obtain st1 where st1: "st1 \<in> reach (lit ''@font-face'') (s0, Map.empty)"
      "matcher (Star (OneOf [Space])) (matcher (Lit CHR ''{'') ?K45) st1 = Some m"
    using matcher_reach by blast
  then obtain st2 where st2: "st2 \<in> reach (Star (OneOf [Space])) st1"
      "matcher (Lit CHR ''{'') ?K45 st2 = Some m"
    using matcher_reach by blast
  then obtain st3 where st3: "st3 \<in> reach (Lit CHR ''{'') st2" "?K45 st3 = Some m"
    using matcher_reach by blast
  have "snd st1 = Map.empty"
    using reach_groupfree [OF st1(1)] by (simp add: groupLang_lit)
  then have "snd st2 = Map.empty"
    using reach_groupfree [OF st2(1)] by simp
  then have "snd st3 = Map.empty"
    using reach_groupfree [OF st3(1)] by simp
  then have k: "?K45 (fst st3, Map.empty) = Some m"
    using st3(2) by (metis prod.collapse)
  then have "CHR ''}'' \<in> set (fst st3)"
    by (rule block_needs_brace)
  from block_and_brace [OF this, of Map.empty] k
  have "snd m 1 = Some (takeWhile (\<lambda>x. x \<noteq> CHR ''}'') (fst st3))"
    by auto
  then have "capture m 1 = Inr (takeWhile (\<lambda>x. x \<noteq> CHR ''}'') (fst st3))
      \<and> CHR ''}'' \<notin> set (takeWhile (\<lambda>x. x \<noteq> CHR ''}'') (fst st3))"
    using set_takeWhileD [of "CHR ''}''" "\<lambda>x. x \<noteq> CHR ''}''" "fst st3"]
    by (auto simp: capture_def)
  then show ?thesis by blast
qed

subsection \<open>getFormatFromUrl\<close>

lemma splitOn_length: "length (splitOn sep s) = Suc (length (filter (\<lambda>c. c = sep) s))"
  by (induction s) (auto split: list.splits)

lemma splitOn_last: "sep \<notin> set b \<Longrightarrow> last (splitOn sep (a @ sep # b)) = b"
proof (induction a)
  case Nil
  then show ?case by (simp add: splitOn_none)
next
  case (Cons x a)
  have "length (splitOn sep (a @ sep # b)) \<ge> 2"
    by (simp add: splitOn_length)
  then obtain p q ps where "splitOn sep (a @ sep # b) = p # q # ps"
    by (cases "splitOn sep (a @ sep # b)") (auto simp: Suc_le_eq intro: list.exhaust)
  then show ?case using Cons by auto
qed

lemma pop_last: "xs \<noteq> [] \<Longrightarrow> pop xs = Some (last xs)"
  by (cases xs rule: rev_cases) (simp_all add: pop_def)

lemma toLowerChar_question: "(toLowerChar c = CHR ''?'') = (c = CHR ''?'')"
proof (cases c)
  case (Char b0 b1 b2 b3 b4 b5 b6 b7)
  show ?thesis
    unfolding Char
    by (cases b0; cases b1; cases b2; cases b3; cases b4; cases b5; cases b6; cases b7;
        simp add: toLowerChar_def char_of_def bit_Suc_0_iff)
qed

text \<open>
  The format of a URL that ends in \<open>.ext\<close>, where \<open>ext\<close> has neither a dot nor a question
  mark: the five known extensions in any letter case, "unknown" for the others, except
  that an extension that names a property of \<open>Object.prototype\<close> (constructor, __proto__)
  gives that inherited value, which the look-up finds before \<open>|| 'unknown'\<close> applies.
\<close>

lemma getFormatFromUrl_extension:
  assumes "CHR ''.'' \<notin> set ext" and "CHR ''?'' \<notin> set ext"
  shows "getFormatFromUrl (stem @ ''.'' @ ext)
         = orElse (getProp formatMap (toLowerCase ext)) (Str ''unknown'')"
proof -
  have "pop (splitOn CHR ''.'' (stem @ CHR ''.'' # ext)) = Some ext"
    using splitOn_last [OF assms(1), of stem] splitOn_not_Nil pop_last by metis
  moreover have "CHR ''?'' \<notin> set (toLowerCase ext)"
  proof
    assume "CHR ''?'' \<in> set (toLowerCase ext)"
    then obtain x where "x \<in> set ext" "toLowerChar x = CHR ''?''"
      by (auto simp: toLowerCase_def)
    then show False using assms(2) by (simp add: toLowerChar_question)
  qed
  then have "splitOn CHR ''?'' (toLowerCase ext) = [toLowerCase ext]"
    by (rule splitOn_none)
  ultimately show ?thesis
    by (simp add: getFormatFromUrl_def at_def)
qed

lemma getFormatFromUrl_table:
  assumes "CHR ''.'' \<notin> set ext" and "CHR ''?'' \<notin> set ext"
  shows "getFormatFromUrl (stem @ ''.'' @ ext)
         = (if toLowerCase ext = ''woff2'' then Str ''woff2''
            else if toLowerCase ext = ''woff'' then Str ''woff''
            else if toLowerCase ext = ''ttf'' then Str ''truetype''
            else if toLowerCase ext = ''otf'' then Str ''opentype''
            else if toLowerCase ext = ''eot'' then Str ''embedded-opentype''
            else if toLowerCase ext \<in> set objectPrototypeKeys then Inherited (toLowerCase ext)
            else Str ''unknown'')"
  unfolding getFormatFromUrl_extension [OF assms]
  by (simp add: getProp_def formatMap_def orElse_def)

lemma getFormatFromUrl_inherited:
  "getFormatFromUrl ''fonts/x.constructor'' = Inherited ''constructor''"
  by code_simp

section \<open>Style sheets of closed blocks\<close>

subsection \<open>The bare url pattern on a list of entries\<close>












subsection \<open>The block pattern on a closed block\<close>


subsection \<open>The two loops on a list of entries\<close>






subsection \<open>Blocks and sheets\<close>










section \<open>The deduplication of what the parsers return\<close>

lemma split_at_last:
  assumes "a @ x # b = c @ x # d" and "x \<notin> set b" and "x \<notin> set d"
  shows "a = c \<and> b = d"
proof -
  have e: "rev b @ x # rev a = rev d @ x # rev c"
    using arg_cong [OF assms(1), of rev] by simp
  have 1: "takeWhile (\<lambda>y. y \<noteq> x) (rev b @ x # rev a) = rev b"
    using assms(2) by (subst takeWhile_append2) auto
  have 2: "takeWhile (\<lambda>y. y \<noteq> x) (rev d @ x # rev c) = rev d"
    using assms(3) by (subst takeWhile_append2) auto
  have "rev b = rev d" using 1 2 by (simp only: e)
  then have "b = d" by simp
  then show ?thesis using assms(1) by simp
qed

lemma toLowerChar_hyphen: "toLowerChar CHR ''-'' = CHR ''-''"
  by code_simp

lemma digit_not_hyphen: "isDigit c \<Longrightarrow> c \<noteq> CHR ''-''"
  by (auto simp: isDigit_def)

lemma toLowerCase_hyphen: "CHR ''-'' \<in> set s \<Longrightarrow> CHR ''-'' \<in> set (toLowerCase s)"
proof -
  assume "CHR ''-'' \<in> set s"
  then have "toLowerChar CHR ''-'' \<in> toLowerChar ` set s" by (rule imageI)
  then show ?thesis by (simp add: toLowerCase_def toLowerChar_hyphen)
qed

lemma normalized_hyphens:
  assumes "normalized f"
  shows "\<exists>w. weight f = Str w \<and> CHR ''-'' \<notin> set w" and "CHR ''-'' \<notin> set (style f)"
proof -
  obtain w where w: "weight f = Str w" "list_all isDigit w"
    using assms by (cases "weight f") (simp_all add: normalized_def)
  have "CHR ''-'' \<notin> set w"
    using w(2) digit_not_hyphen by (auto simp: list_all_iff)
  with w(1) show "\<exists>w. weight f = Str w \<and> CHR ''-'' \<notin> set w" by blast
  have "toLowerCase (style f) = ''normal'' \<or> toLowerCase (style f) = ''italic''
        \<or> toLowerCase (style f) = ''oblique''"
    using assms by (simp add: normalized_def)
  then have "CHR ''-'' \<notin> set (toLowerCase (style f))"
    by (elim disjE) simp_all
  then show "CHR ''-'' \<notin> set (style f)"
    using toLowerCase_hyphen by blast
qed

lemma normalized_key:
  assumes "normalized f" and "normalized g" and "fontKey f = fontKey g"
  shows "triple f = triple g"
proof -
  obtain w where w: "weight f = Str w" "CHR ''-'' \<notin> set w"
    using normalized_hyphens(1) [OF assms(1)] by blast
  obtain v where v: "weight g = Str v" "CHR ''-'' \<notin> set v"
    using normalized_hyphens(1) [OF assms(2)] by blast
  have "(family f @ CHR ''-'' # w) @ CHR ''-'' # style f = (family g @ CHR ''-'' # v) @ CHR ''-'' # style g"
    using assms(3) w(1) v(1) by (simp add: fontKey_def toString_def)
  from split_at_last [OF this normalized_hyphens(2) [OF assms(1)] normalized_hyphens(2) [OF assms(2)]]
  have s: "style f = style g" and "family f @ CHR ''-'' # w = family g @ CHR ''-'' # v"
    by simp_all
  from split_at_last [OF this(2) w(2) v(2)] s w(1) v(1) show ?thesis
    by (simp add: triple_def)
qed

lemma triple_key: "triple f = triple g \<Longrightarrow> fontKey f = fontKey g"
  by (simp add: triple_def fontKey_def)

lemma weightFont_normalized: "normalized (weightFont fontName w)"
proof -
  have "list_all isDigit (filter isDigit w)" by (simp add: list_all_iff)
  moreover have "list_all isDigit ''400''" by (simp add: isDigit_def)
  ultimately show ?thesis
    by (simp add: weightFont_eq normalized_def keywords_lower)
qed

lemma familyFonts_normalized:
  assumes "familyFonts seg = Inr new"
  shows "list_all normalized new"
proof -
  have plain: "normalized \<lparr>family = n, style = ''normal'', weight = Str ''400'',
                          source = ''Google Fonts'', url = None, format = None\<rparr>" for n
    by (simp add: normalized_def keywords_lower isDigit_def)
  have each: "list_all normalized (map (weightFont n) ws)" for n ws
    by (simp add: list_all_iff weightFont_normalized)
  from assms show ?thesis
    by (auto simp: familyFonts_def Let_def plain each split: option.splits if_splits)
qed

lemma familiesLoop_normalized:
  "list_all normalized fonts \<Longrightarrow> list_all normalized (familiesLoop segs fonts)"
proof (induction segs arbitrary: fonts)
  case Nil
  then show ?case by simp
next
  case (Cons seg segs)
  show ?case
  proof (cases "familyFonts seg")
    case (Inl e)
    then show ?thesis using Cons.prems by simp
  next
    case (Inr new)
    then show ?thesis
      using Cons.prems Cons.IH [of "fonts @ new"] familyFonts_normalized [OF Inr] by simp
  qed
qed

lemma parsed_normalized:
  assumes "parsed P f"
  shows "normalized f"
proof -
  from assms consider
    (css) cssText baseUrl fonts where "parseFontFaces P cssText baseUrl = Some (Inr fonts)" "f \<in> set fonts"
    | (google) u where "f \<in> set (parseGoogleFontsUrl P u)"
    unfolding parsed_def by blast
  then show ?thesis
  proof cases
    case css
    obtain fs where "parseFontFaces P cssText baseUrl = Some (Inr fs)" "list_all (emitted P baseUrl) fs"
      using parseFontFaces_returns by blast
    with css have "emitted P baseUrl f" by (simp add: list_all_iff)
    from emitted_fields [OF this] show ?thesis
      by (auto simp: normalized_def)
  next
    case google
    have "list_all normalized (parseGoogleFontsUrl P u)"
      using familiesLoop_normalized [of "[]"]
      by (simp add: parseGoogleFontsUrl_def split: option.splits)
    with google show ?thesis by (simp add: list_all_iff)
  qed
qed

lemma firstWins_firstSeen: "list_all normalized fs \<Longrightarrow> firstWins fs = firstSeen fs"
proof (induction fs rule: firstWins.induct)
  case 1
  then show ?case by simp
next
  case (2 f fs)
  have "filter (\<lambda>g. fontKey g \<noteq> fontKey f) fs = filter (\<lambda>g. triple g \<noteq> triple f) fs"
  proof (rule filter_cong [OF refl])
    fix g assume "g \<in> set fs"
    then have "normalized g" "normalized f" using "2.prems" by (simp_all add: list_all_iff)
    then show "(fontKey g \<noteq> fontKey f) = (triple g \<noteq> triple f)"
      using normalized_key [of g f] triple_key [of g f] by blast
  qed
  moreover have "list_all normalized (filter (\<lambda>g. fontKey g \<noteq> fontKey f) fs)"
    using "2.prems" by (simp add: list_all_iff)
  ultimately show ?case using "2.IH" by simp
qed

lemma distinct_keys_triples: "distinct (map fontKey fs) \<Longrightarrow> distinct (map triple fs)"
proof (induction fs)
  case Nil
  then show ?case by simp
next
  case (Cons f fs)
  have "triple f \<notin> triple ` set fs"
  proof
    assume "triple f \<in> triple ` set fs"
    then obtain g where g: "g \<in> set fs" "triple f = triple g" by blast
    from g(2) have "fontKey f = fontKey g" by (rule triple_key)
    with g(1) have "fontKey f \<in> fontKey ` set fs" by simp
    with Cons.prems show False by simp
  qed
  moreover have "distinct (map triple fs)" using Cons by simp
  ultimately show ?case by simp
qed

lemma find_finer:
  assumes "find Q xs = Some s" and "P s" and "\<And>x. P x \<Longrightarrow> Q x"
  shows "find P xs = Some s"
  using assms(1)
proof (induction xs)
  case Nil
  then show ?case by simp
next
  case (Cons x xs)
  show ?case
  proof (cases "Q x")
    case True
    then have "x = s" using Cons.prems by simp
    then show ?thesis using assms(2) by simp
  next
    case False
    then have "\<not> P x" using assms(3) by blast
    then show ?thesis using Cons False by simp
  qed
qed

lemma firstWins_find_triple:
  "map (\<lambda>f. find (\<lambda>g. triple g = triple f) fs) (firstWins fs) = map Some (firstWins fs)"
proof (rule map_cong [OF refl])
  fix s assume s: "s \<in> set (firstWins fs)"
  have "\<forall>h \<in> set (firstWins fs). find (\<lambda>g. fontKey g = fontKey h) fs = Some h"
    using firstWins_find [of fs] by (simp only: map_eq_conv)
  from this s have "find (\<lambda>g. fontKey g = fontKey s) fs = Some s"
    by (rule bspec)
  then show "find (\<lambda>g. triple g = triple s) fs = Some s"
    by (rule find_finer) (rule refl, erule triple_key)
qed

lemma firstWins_triples:
  "list_all normalized fs \<Longrightarrow> triple ` set (firstWins fs) = triple ` set fs"
proof
  show "triple ` set (firstWins fs) \<subseteq> triple ` set fs"
    using firstWins_set [of fs] by blast
next
  assume n: "list_all normalized fs"
  show "triple ` set fs \<subseteq> triple ` set (firstWins fs)"
  proof
    fix t assume "t \<in> triple ` set fs"
    then obtain f where f: "f \<in> set fs" "t = triple f" by blast
    then have "fontKey f \<in> fontKey ` set (firstWins fs)" by (simp add: firstWins_keys)
    then obtain g where g: "g \<in> set (firstWins fs)" "fontKey g = fontKey f" by auto
    then have "g \<in> set fs" using firstWins_set [of fs] by blast
    then have "normalized g" "normalized f"
      using n f(1) by (simp_all add: list_all_iff)
    then have "triple g = triple f"
      using g(2) by (rule normalized_key)
    with f(2) have "t = triple g" by simp
    with g(1) show "t \<in> triple ` set (firstWins fs)" by simp
  qed
qed

lemma parsed_css:
  "parseFontFaces P cssText baseUrl = Some (Inr fonts) \<Longrightarrow> list_all (parsed P) fonts"
  unfolding parsed_def list_all_iff by blast

lemma parsed_google: "list_all (parsed P) (parseGoogleFontsUrl P u)"
  unfolding parsed_def list_all_iff by blast

text \<open>
  C8. The deduplication is first-wins on the identity family, weight, style. For every
  list: the descriptors of the result have distinct identities; each of them is the first
  descriptor of the input with its family, weight and style, with all its fields, the
  url among them; and the result is a subsequence of the input, so the first-seen order
  stays. For every list of descriptors that the parsers returned, descriptors with
  distinct identities are all retained: the result is the first-seen list of the input,
  and it has every identity of the input.
\<close>

theorem deduplicate_first_wins:
  "distinct (map triple (deduplicate fonts))
   \<and> map (\<lambda>f. find (\<lambda>g. triple g = triple f) fonts) (deduplicate fonts)
       = map Some (deduplicate fonts)
   \<and> subseq (deduplicate fonts) fonts
   \<and> fontKey ` set (deduplicate fonts) = fontKey ` set fonts
   \<and> (list_all (parsed P) fonts \<longrightarrow>
        deduplicate fonts = firstSeen fonts
        \<and> triple ` set (deduplicate fonts) = triple ` set fonts)"
  unfolding deduplicate_firstWins
proof (intro conjI impI)
  show "distinct (map triple (firstWins fonts))"
    using firstWins_distinct by (rule distinct_keys_triples)
  show "map (\<lambda>f. find (\<lambda>g. triple g = triple f) fonts) (firstWins fonts)
          = map Some (firstWins fonts)"
    by (rule firstWins_find_triple)
  show "subseq (firstWins fonts) fonts"
    by (rule firstWins_subseq)
  show "fontKey ` set (firstWins fonts) = fontKey ` set fonts"
    by (rule firstWins_keys)
next
  assume "list_all (parsed P) fonts"
  then have n: "list_all normalized fonts"
    using parsed_normalized by (auto simp: list_all_iff)
  then show "firstWins fonts = firstSeen fonts"
    by (rule firstWins_firstSeen)
  from n show "triple ` set (firstWins fonts) = triple ` set fonts"
    by (rule firstWins_triples)
qed

text \<open>
  C8, at the descriptors of a style sheet with three blocks and of a Google Fonts link:
  Acme 400, Acme 700, Acme 400 again with another url and format, Roboto 400, Roboto 700
  italic. The second Acme 400 goes, the url and format of the first stay, and Acme 700
  stays, which differs from Acme 400 in the weight only.
\<close>

theorem deduplicate_first_wins_witness:
  "deduplicate
     [\<lparr>family = ''Acme'', style = ''normal'', weight = Str ''400'', source = ''ex.com'',
       url = Some ''https://ex.com/a.woff2'', format = Some (Str ''woff2'')\<rparr>,
      \<lparr>family = ''Acme'', style = ''normal'', weight = Str ''700'', source = ''ex.com'',
       url = Some ''https://ex.com/css/a.woff2'', format = Some (Str ''woff2'')\<rparr>,
      \<lparr>family = ''Acme'', style = ''normal'', weight = Str ''400'', source = ''ex.com'',
       url = Some ''https://ex.com/css/a.woff2'', format = Some (Str ''woff'')\<rparr>,
      \<lparr>family = ''Roboto'', style = ''normal'', weight = Str ''400'',
       source = ''Google Fonts'', url = None, format = None\<rparr>,
      \<lparr>family = ''Roboto'', style = ''italic'', weight = Str ''700'',
       source = ''Google Fonts'', url = None, format = None\<rparr>]
   = [\<lparr>family = ''Acme'', style = ''normal'', weight = Str ''400'', source = ''ex.com'',
       url = Some ''https://ex.com/a.woff2'', format = Some (Str ''woff2'')\<rparr>,
      \<lparr>family = ''Acme'', style = ''normal'', weight = Str ''700'', source = ''ex.com'',
       url = Some ''https://ex.com/css/a.woff2'', format = Some (Str ''woff2'')\<rparr>,
      \<lparr>family = ''Roboto'', style = ''normal'', weight = Str ''400'',
       source = ''Google Fonts'', url = None, format = None\<rparr>,
      \<lparr>family = ''Roboto'', style = ''italic'', weight = Str ''700'',
       source = ''Google Fonts'', url = None, format = None\<rparr>]"
proof -
  let ?css = "[\<lparr>family = ''Acme'', style = ''normal'', weight = Str ''400'', source = ''ex.com'',
       url = Some ''https://ex.com/a.woff2'', format = Some (Str ''woff2'')\<rparr>,
      \<lparr>family = ''Acme'', style = ''normal'', weight = Str ''700'', source = ''ex.com'',
       url = Some ''https://ex.com/css/a.woff2'', format = Some (Str ''woff2'')\<rparr>,
      \<lparr>family = ''Acme'', style = ''normal'', weight = Str ''400'', source = ''ex.com'',
       url = Some ''https://ex.com/css/a.woff2'', format = Some (Str ''woff'')\<rparr>]"
  let ?google = "[\<lparr>family = ''Roboto'', style = ''normal'', weight = Str ''400'',
       source = ''Google Fonts'', url = None, format = None\<rparr>,
      \<lparr>family = ''Roboto'', style = ''italic'', weight = Str ''700'',
       source = ''Google Fonts'', url = None, format = None\<rparr>]"
  have "parseFontFaces samplePlatform
          ''@font-face{font-family:\"Acme\";font-weight:400;src:url(https://ex.com/a.woff2) format(\"woff2\");}@font-face{font-family:\"Acme\";font-weight:700;src:url(a.woff2) format(\"woff2\");}@font-face{font-family:\"Acme\";font-weight:normal;src:url(a.woff2) format(\"woff\");}''
          ''https://ex.com/css/a.css'' = Some (Inr ?css)"
    by code_simp
  then have css: "list_all (parsed samplePlatform) ?css"
    by (rule parsed_css)
  have "parseGoogleFontsUrl samplePlatform ''https://fonts.googleapis.com/css?family=Roboto:400,700i''
        = ?google"
    by code_simp
  then have google: "list_all (parsed samplePlatform) ?google"
    using parsed_google [of samplePlatform "''https://fonts.googleapis.com/css?family=Roboto:400,700i''"]
    by simp
  from css google have "list_all (parsed samplePlatform) (?css @ ?google)"
    by (simp only: list_all_append simp_thms)
  with deduplicate_first_wins [of "?css @ ?google" samplePlatform]
  have "deduplicate (?css @ ?google) = firstSeen (?css @ ?google)"
    by blast
  then show ?thesis by (simp add: triple_def)
qed

lemma parsed_key:
  assumes "parsed P f" and "parsed P g" and "fontKey f = fontKey g"
  shows "triple f = triple g"
  using assms parsed_normalized normalized_key by blast

lemma deduplicate_pair: "fontKey f \<noteq> fontKey g \<Longrightarrow> deduplicate [f, g] = [f, g]"
  by (simp add: deduplicate_def uniqueFonts_def reducer_def)

text \<open>
  C10, as the code has it. The key is the three fields joined by hyphens. Every
  descriptor that \<open>parseFontFaces\<close> or \<open>parseGoogleFontsUrl\<close> returns has a weight of
  digits and a style without hyphen, so the key determines the family, weight and style
  whatever the family is: two returned descriptors that differ in one of the three have
  different keys, and the deduplication keeps both.
\<close>

theorem fontKey_injective_on_parsed:
  "parsed P f \<and> parsed P g \<and> triple f \<noteq> triple g \<longrightarrow>
     fontKey f \<noteq> fontKey g \<and> deduplicate [f, g] = [f, g]"
  using parsed_key [of P f g] deduplicate_pair [of f g] by blast

text \<open>
  C10, at the two descriptors of the link \<open>family=Roboto:400,700i\<close>: the keys are
  \<open>Roboto-400-normal\<close> and \<open>Roboto-700-italic\<close>, and both descriptors stay.
\<close>

theorem fontKey_injective_on_parsed_witness:
  "fontKey \<lparr>family = ''Roboto'', style = ''normal'', weight = Str ''400'',
            source = ''Google Fonts'', url = None, format = None\<rparr> = ''Roboto-400-normal''
   \<and> fontKey \<lparr>family = ''Roboto'', style = ''italic'', weight = Str ''700'',
              source = ''Google Fonts'', url = None, format = None\<rparr> = ''Roboto-700-italic''
   \<and> deduplicate
       [\<lparr>family = ''Roboto'', style = ''normal'', weight = Str ''400'',
         source = ''Google Fonts'', url = None, format = None\<rparr>,
        \<lparr>family = ''Roboto'', style = ''italic'', weight = Str ''700'',
         source = ''Google Fonts'', url = None, format = None\<rparr>]
     = [\<lparr>family = ''Roboto'', style = ''normal'', weight = Str ''400'',
         source = ''Google Fonts'', url = None, format = None\<rparr>,
        \<lparr>family = ''Roboto'', style = ''italic'', weight = Str ''700'',
         source = ''Google Fonts'', url = None, format = None\<rparr>]"
proof -
  let ?f = "\<lparr>family = ''Roboto'', style = ''normal'', weight = Str ''400'',
             source = ''Google Fonts'', url = None, format = None\<rparr>"
  let ?g = "\<lparr>family = ''Roboto'', style = ''italic'', weight = Str ''700'',
             source = ''Google Fonts'', url = None, format = None\<rparr>"
  have "parseGoogleFontsUrl samplePlatform ''https://fonts.googleapis.com/css?family=Roboto:400,700i''
        = [?f, ?g]"
    by code_simp
  then have "list_all (parsed samplePlatform) [?f, ?g]"
    using parsed_google [of samplePlatform "''https://fonts.googleapis.com/css?family=Roboto:400,700i''"]
    by simp
  then have "parsed samplePlatform ?f" "parsed samplePlatform ?g"
    by simp_all
  moreover have "triple ?f \<noteq> triple ?g"
    by (simp add: triple_def)
  ultimately have "deduplicate [?f, ?g] = [?f, ?g]"
    using fontKey_injective_on_parsed [of samplePlatform ?f ?g] by blast
  then show ?thesis by (simp add: fontKey_def toString_def)
qed

text \<open>
  C10 as stated fails: no two descriptors that the parsers return have different
  identities and one key. A family name that ends in a hyphen and digits does not give
  one: the style sheet below declares the family \<open>Foo-400\<close> at weight 700 and the family
  \<open>Foo\<close> at weight 400, the keys are \<open>Foo-400-700-normal\<close> and \<open>Foo-400-normal\<close>, and the
  deduplication keeps both descriptors.
\<close>

theorem fontKey_no_collision:
  "\<not> (\<exists>P a b. parsed P a \<and> parsed P b \<and> triple a \<noteq> triple b \<and> fontKey a = fontKey b)
   \<and> parseFontFaces samplePlatform
       ''@font-face{font-family:\"Foo-400\";font-weight:700;src:url(a.woff2) format(\"woff2\");}@font-face{font-family:\"Foo\";font-weight:400;src:url(https://ex.com/a.woff2) format(\"woff2\");}''
       ''https://ex.com/css/a.css''
     = Some (Inr [\<lparr>family = ''Foo-400'', style = ''normal'', weight = Str ''700'', source = ''ex.com'',
                   url = Some ''https://ex.com/css/a.woff2'', format = Some (Str ''woff2'')\<rparr>,
                  \<lparr>family = ''Foo'', style = ''normal'', weight = Str ''400'', source = ''ex.com'',
                   url = Some ''https://ex.com/a.woff2'', format = Some (Str ''woff2'')\<rparr>])
   \<and> fontKey \<lparr>family = ''Foo-400'', style = ''normal'', weight = Str ''700'', source = ''ex.com'',
              url = Some ''https://ex.com/css/a.woff2'', format = Some (Str ''woff2'')\<rparr>
     = ''Foo-400-700-normal''
   \<and> fontKey \<lparr>family = ''Foo'', style = ''normal'', weight = Str ''400'', source = ''ex.com'',
              url = Some ''https://ex.com/a.woff2'', format = Some (Str ''woff2'')\<rparr>
     = ''Foo-400-normal''
   \<and> deduplicate
       [\<lparr>family = ''Foo-400'', style = ''normal'', weight = Str ''700'', source = ''ex.com'',
         url = Some ''https://ex.com/css/a.woff2'', format = Some (Str ''woff2'')\<rparr>,
        \<lparr>family = ''Foo'', style = ''normal'', weight = Str ''400'', source = ''ex.com'',
         url = Some ''https://ex.com/a.woff2'', format = Some (Str ''woff2'')\<rparr>]
     = [\<lparr>family = ''Foo-400'', style = ''normal'', weight = Str ''700'', source = ''ex.com'',
         url = Some ''https://ex.com/css/a.woff2'', format = Some (Str ''woff2'')\<rparr>,
        \<lparr>family = ''Foo'', style = ''normal'', weight = Str ''400'', source = ''ex.com'',
         url = Some ''https://ex.com/a.woff2'', format = Some (Str ''woff2'')\<rparr>]"
proof (intro conjI)
  show "\<not> (\<exists>P a b. parsed P a \<and> parsed P b \<and> triple a \<noteq> triple b \<and> fontKey a = fontKey b)"
    using parsed_key by blast
qed code_simp+

text \<open>
  On records in general the key does not determine the identity: a weight with a hyphen
  in it, which no parser returns, gives the key of another family.
\<close>

lemma fontKey_hyphen_weight:
  "fontKey \<lparr>family = ''Foo-400'', style = ''normal'', weight = Str ''700'', source = ''ex.com'',
            url = None, format = None\<rparr>
   = fontKey \<lparr>family = ''Foo'', style = ''normal'', weight = Str ''400-700'', source = ''ex.com'',
              url = None, format = None\<rparr>"
  by (simp add: fontKey_def toString_def)

end
